theory Spec2Isabelle
  imports Complex_Main
begin

section \<open>Errors\<close>

text \<open>
  The exceptions the modelled code can raise: \<^verbatim>\<open>ValueError\<close> from the key checks of
  \<^verbatim>\<open>client.py\<close>, \<^verbatim>\<open>IndexError\<close> from a list index out of range,
  \<^verbatim>\<open>AttributeError\<close> from reading an attribute an object does not have, and
  \<^verbatim>\<open>ValueError\<close>, \<^verbatim>\<open>OverflowError\<close> or \<^verbatim>\<open>OSError\<close> from \<^verbatim>\<open>datetime.fromtimestamp\<close>.
\<close>

datatype error = ValueError | IndexError | AttributeError | OverflowError | OSError

section \<open>Server keys (\<^verbatim>\<open>client.py\<close>)\<close>

text \<open>
  A Python \<^verbatim>\<open>str\<close> is a sequence of Unicode code points; a code point is a natural
  number (\<open>45\<close> is the hyphen, \<open>10\<close> the line feed).
\<close>

type_synonym py_str = "nat list"

text \<open>
  The class \<^verbatim>\<open>[a-z]\<close> under \<^verbatim>\<open>re.IGNORECASE\<close> on a \<^verbatim>\<open>str\<close> pattern: the 52 ASCII
  letters and the four code points whose case folding is an ASCII letter
  (U+0130, U+0131, U+017F, U+212A).
\<close>

definition letter :: "nat \<Rightarrow> bool" where
  "letter c \<longleftrightarrow> (97 \<le> c \<and> c \<le> 122) \<or> (65 \<le> c \<and> c \<le> 90)
     \<or> c = 304 \<or> c = 305 \<or> c = 383 \<or> c = 8490"

text \<open>
  \<^verbatim>\<open>re.match(r"^[a-z]{10,}\-[a-z]{40,}$", server_key, re.IGNORECASE)\<close>, as a scanner.
  Both repetitions are greedy and neither the hyphen nor the line feed is in the class,
  so the only way to match is to take every letter of each run. Without
  \<^verbatim>\<open>re.MULTILINE\<close> the anchor \<^verbatim>\<open>$\<close> matches at the end of the string and also just
  before a line feed that ends the string.
\<close>

definition re_match_server_key :: "py_str \<Rightarrow> bool" where
  "re_match_server_key server_key =
     (let prefix = takeWhile letter server_key;
          rest = dropWhile letter server_key
      in 10 \<le> length prefix \<and>
         (case rest of
            [] \<Rightarrow> False
          | c # rest' \<Rightarrow>
              c = 45 \<and>
              (let ident = takeWhile letter rest';
                   tail = dropWhile letter rest'
               in 40 \<le> length ident \<and> (tail = [] \<or> tail = [10]))))"

text \<open>
  \<^verbatim>\<open>
  def _validate_server_key(self, server_key: str):
      expression = r"^[a-z]{10,}\-[a-z]{40,}$"
      if not re.match(expression, server_key, re.IGNORECASE):
          raise ValueError(f"Invalid server-key format: {server_key}")
  \<close>
\<close>

definition validate_server_key :: "py_str \<Rightarrow> error + unit" where
  "validate_server_key server_key =
     (if \<not> re_match_server_key server_key then Inl ValueError else Inr ())"

text \<open>\<^verbatim>\<open>str.split(sep)\<close>: the pieces between the occurrences of \<open>sep\<close>, never empty as a list.\<close>

fun split :: "'a \<Rightarrow> 'a list \<Rightarrow> 'a list list" where
  "split sep [] = [[]]"
| "split sep (c # cs) =
     (if c = sep then [] # split sep cs
      else (case split sep cs of
              [] \<Rightarrow> [[c]]
            | piece # pieces \<Rightarrow> (c # piece) # pieces))"

text \<open>
  \<^verbatim>\<open>
  def _get_server_id(self, server_key: str):
      parsed_key = server_key.split("-")
      return parsed_key[1]
  \<close>
  The index raises \<^verbatim>\<open>IndexError\<close> when the key holds no hyphen.
\<close>

definition get_server_id :: "py_str \<Rightarrow> error + py_str" where
  "get_server_id server_key =
     (let parsed_key = split 45 server_key
      in if 1 < length parsed_key then Inr (parsed_key ! 1) else Inl IndexError)"

text \<open>
  The pattern in the words of its regular expression: ten or more letters, a hyphen,
  forty or more letters, and then the end of the string or one final line feed.
\<close>

definition matches_pattern :: "py_str \<Rightarrow> bool" where
  "matches_pattern server_key \<longleftrightarrow>
     (\<exists>a b nl. server_key = a @ 45 # b @ nl \<and>
        list_all letter a \<and> 10 \<le> length a \<and>
        list_all letter b \<and> 40 \<le> length b \<and> (nl = [] \<or> nl = [10]))"

section \<open>The caches of \<^verbatim>\<open>prc.utility\<close>\<close>

text \<open>
  \<^verbatim>\<open>Cache\<close> and \<^verbatim>\<open>KeylessCache\<close> are imported from \<^verbatim>\<open>prc.utility\<close>, whose file is not
  among the sources. Both are modelled from sections 3, 4.1 and 4.2 of the specification
  (\<^verbatim>\<open>BoundedTTLCache\<close> and \<^verbatim>\<open>BoundedSequence\<close>). Clock readings are real numbers of
  seconds and are passed in as \<open>now\<close>.
\<close>

record ('k, 'v) cache_entry =
  entry_key :: 'k
  entry_value :: 'v
  inserted_at :: real

record ('k, 'v) cache =
  capacity :: nat
  ttl_seconds :: nat
  entries :: "('k, 'v) cache_entry list"

text \<open>
  Modelled from the spec: the constructor \<^verbatim>\<open>Cache(max_size, ttl)\<close> of the missing
  \<^verbatim>\<open>prc.utility\<close>; an empty cache with the given capacity and time-to-live. The list
  \<open>entries\<close> is in insertion order, oldest first.
\<close>

definition Cache :: "nat \<Rightarrow> nat \<Rightarrow> ('k, 'v) cache" where
  "Cache max_size ttl = \<lparr>capacity = max_size, ttl_seconds = ttl, entries = []\<rparr>"

text \<open>
  Modelled from the spec: the liveness test of the missing \<^verbatim>\<open>Cache\<close>; an entry is
  live when \<open>ttl_seconds\<close> is 0 or its age is below \<open>ttl_seconds\<close>.
\<close>

definition live :: "real \<Rightarrow> ('k, 'v) cache \<Rightarrow> ('k, 'v) cache_entry \<Rightarrow> bool" where
  "live now c e \<longleftrightarrow> ttl_seconds c = 0 \<or> now - inserted_at e < real (ttl_seconds c)"

text \<open>
  Modelled from the spec: \<^verbatim>\<open>Cache.get\<close> of the missing \<^verbatim>\<open>prc.utility\<close>; the value if
  present and live, otherwise absent. Expiry is lazy: the cache is not changed.
\<close>

definition cache_get :: "real \<Rightarrow> 'k \<Rightarrow> ('k, 'v) cache \<Rightarrow> 'v option" where
  "cache_get now k c =
     (case find (\<lambda>e. entry_key e = k) (entries c) of
        None \<Rightarrow> None
      | Some e \<Rightarrow> if live now c e then Some (entry_value e) else None)"

text \<open>
  Modelled from the spec: \<^verbatim>\<open>Cache.set\<close> of the missing \<^verbatim>\<open>prc.utility\<close>; inserts or
  replaces and returns the stored value. Setting an existing key refreshes its position
  and timestamp; inserting a new key when the length equals the capacity evicts the
  oldest-inserted entry before the new one is added.
\<close>

definition cache_set :: "real \<Rightarrow> 'k \<Rightarrow> 'v \<Rightarrow> ('k, 'v) cache \<Rightarrow> 'v \<times> ('k, 'v) cache" where
  "cache_set now k v c =
     (let new = \<lparr>entry_key = k, entry_value = v, inserted_at = now\<rparr>;
          kept =
            (if k \<in> set (map entry_key (entries c))
             then filter (\<lambda>e. entry_key e \<noteq> k) (entries c)
             else if length (entries c) = capacity c
             then (case entries c of [] \<Rightarrow> [] | oldest # rest \<Rightarrow> rest)
             else entries c)
      in (v, c\<lparr>entries := kept @ [new]\<rparr>))"

text \<open>
  Modelled from the spec: \<^verbatim>\<open>Cache.items\<close> of the missing \<^verbatim>\<open>prc.utility\<close>; the live
  entries as (key, value) pairs in insertion order.
\<close>

definition cache_items :: "real \<Rightarrow> ('k, 'v) cache \<Rightarrow> ('k \<times> 'v) list" where
  "cache_items now c =
     map (\<lambda>e. (entry_key e, entry_value e)) (filter (live now c) (entries c))"

text \<open>A run of \<^verbatim>\<open>set\<close> calls, each with the clock reading at which it is made.\<close>

fun set_all :: "(real \<times> 'k \<times> 'v) list \<Rightarrow> ('k, 'v) cache \<Rightarrow> ('k, 'v) cache" where
  "set_all [] c = c"
| "set_all ((now, k, v) # calls) c = set_all calls (snd (cache_set now k v c))"

record 'v keyless_cache =
  k_max_size :: nat
  k_ttl :: nat
  k_items :: "'v list"
  k_sort :: "(('v \<Rightarrow> int) \<times> bool) option"

text \<open>
  Modelled from the spec: the constructor \<^verbatim>\<open>KeylessCache(max_size, ttl, sort=None)\<close>
  of the missing \<^verbatim>\<open>prc.utility\<close>; \<open>sort_cfg\<close> is a key function and a flag for descending
  order. The list \<open>k_items\<close> is in insertion order, oldest first.
\<close>

definition KeylessCache ::
  "nat \<Rightarrow> nat \<Rightarrow> (('v \<Rightarrow> int) \<times> bool) option \<Rightarrow> 'v keyless_cache" where
  "KeylessCache max_size ttl sort_cfg =
     \<lparr>k_max_size = max_size, k_ttl = ttl, k_items = [], k_sort = sort_cfg\<rparr>"

text \<open>
  Modelled from the spec: \<^verbatim>\<open>KeylessCache.add\<close> of the missing \<^verbatim>\<open>prc.utility\<close>; appends
  and returns the item, evicting the earliest item by insertion order once the length
  equals the capacity.
\<close>

definition keyless_add :: "'v \<Rightarrow> 'v keyless_cache \<Rightarrow> 'v \<times> 'v keyless_cache" where
  "keyless_add item c =
     (let kept =
            (if length (k_items c) = k_max_size c
             then (case k_items c of [] \<Rightarrow> [] | earliest # rest \<Rightarrow> rest)
             else k_items c)
      in (item, c\<lparr>k_items := kept @ [item]\<rparr>))"

text \<open>
  Modelled from the spec: \<^verbatim>\<open>KeylessCache.items\<close> of the missing \<^verbatim>\<open>prc.utility\<close>; the
  items in insertion order, or stably sorted by the configured key. No item is filtered
  by age. A stable descending sort keeps equal keys in insertion order, as Python's
  \<^verbatim>\<open>sorted(..., reverse=True)\<close> does.
\<close>

definition keyless_items :: "'v keyless_cache \<Rightarrow> 'v list" where
  "keyless_items c =
     (case k_sort c of
        None \<Rightarrow> k_items c
      | Some (f, reverse) \<Rightarrow>
          if reverse then rev (sort_key f (rev (k_items c))) else sort_key f (k_items c))"

section \<open>Log entries (\<^verbatim>\<open>models/server/logs.py\<close>)\<close>

text \<open>
  A \<^verbatim>\<open>LogPlayer\<close> is a \<^verbatim>\<open>Player\<close> with a name and an id; \<^verbatim>\<open>Player\<close>, which parses the
  \<^verbatim>\<open>"Name:Id"\<close> text of the API, is outside the sources, so the raw records below carry
  the parsed name and id.
\<close>

record log_player =
  player_name :: string
  player_id :: nat

text \<open>
  \<^verbatim>\<open>datetime.fromtimestamp(t)\<close> asks the platform for the local time at the instant
  \<open>t\<close>. It raises (\<^verbatim>\<open>ValueError\<close>, \<^verbatim>\<open>OverflowError\<close> or \<^verbatim>\<open>OSError\<close>, by platform and
  range) or returns a naive \<^verbatim>\<open>datetime\<close>: the reading of the local wall clock. A naive
  \<^verbatim>\<open>datetime\<close> is represented by that reading in seconds, which is what \<^verbatim>\<open>==\<close> and the
  order compare (the \<^verbatim>\<open>fold\<close> flag is ignored), so two instants with the same reading
  give equal values. The platform's conversion is a parameter of every function that
  reaches \<^verbatim>\<open>LogEntry.__init__\<close>.
\<close>

definition fromtimestamp :: "(int \<Rightarrow> error + int) \<Rightarrow> int \<Rightarrow> error + int" where
  "fromtimestamp localtime t = localtime t"

text \<open>
  Two platforms for the scenarios. The first is CPython 3.11 on 64-bit Linux with the
  zone UTC (the bounds are those at which the exception changes there). The second has a
  zone four hours behind UTC before the instant 1730613600 and five hours behind from
  then on, as New York has between 2024-03-10 and 2025-03-09: its wall clock shows the
  hour from 01:00 to 02:00 of 2024-11-03 twice.
\<close>

definition linux_utc :: "int \<Rightarrow> error + int" where
  "linux_utc t =
     (if t < - (2 ^ 63) \<or> 2 ^ 63 \<le> t then Inl OverflowError
      else if t < - 67768040609740800 \<or> 67768036191676800 \<le> t then Inl OSError
      else if t < - 62135510400 \<or> 253402300800 \<le> t then Inl ValueError
      else Inr t)"

definition new_york_2024 :: "int \<Rightarrow> error + int" where
  "new_york_2024 t = Inr (if t < 1730613600 then t - 14400 else t - 18000)"

text \<open>The classes of \<^verbatim>\<open>logs.py\<close>: \<^verbatim>\<open>LogEntry\<close> and the four classes that extend it.\<close>

record log_entry =
  created_at :: int

record join_entry = log_entry +
  player :: log_player
  is_join :: bool

record kill_entry = log_entry +
  killed :: log_player
  killer :: log_player

record command_entry = log_entry +
  author :: log_player
  command :: string

record mod_call_entry = log_entry +
  caller :: log_player
  responder :: "log_player option"
  is_acknowledged :: bool

text \<open>The JSON objects of the four log endpoints, with the keys the constructors read.\<close>

record join_data =
  jd_Player :: log_player
  jd_Join :: "bool option"
  jd_Timestamp :: "int option"

record kill_data =
  kd_Killed :: log_player
  kd_Killer :: log_player
  kd_Timestamp :: "int option"

record command_data =
  cd_Player :: log_player
  cd_Command :: string
  cd_Timestamp :: "int option"

record mod_call_data =
  md_Caller :: log_player
  md_Moderator :: "log_player option"
  md_Timestamp :: "int option"

text \<open>\<^verbatim>\<open>data.get(key, default)\<close> on a key that may be absent.\<close>

definition get_default :: "'a option \<Rightarrow> 'a \<Rightarrow> 'a" where
  "get_default v d = (case v of None \<Rightarrow> d | Some x \<Rightarrow> x)"

text \<open>
  The loop of \<^verbatim>\<open>LogEntry.__init__\<close>:
  \<^verbatim>\<open>
  for entry in cache.items():
      if entry.created_at == self.created_at:
          if dedupe is not None:
              if dedupe(entry):
                  break
          else:
              break
  else:
      cache.add(self)
  \<close>
  The result is the entry the loop broke at, or \<open>None\<close> when the loop ran to its end
  and the \<^verbatim>\<open>else\<close> branch is taken.
\<close>

fun log_scan ::
  "'a log_entry_scheme \<Rightarrow> ('a log_entry_scheme \<Rightarrow> bool) option \<Rightarrow> 'a log_entry_scheme list
     \<Rightarrow> 'a log_entry_scheme option" where
  "log_scan self dedupe [] = None"
| "log_scan self dedupe (entry # rest) =
     (if created_at entry = created_at self
      then (case dedupe of
              Some d \<Rightarrow> if d entry then Some entry else log_scan self dedupe rest
            | None \<Rightarrow> Some entry)
      else log_scan self dedupe rest)"

text \<open>
  \<^verbatim>\<open>LogEntry.__init__(self, data, cache=None, dedupe=None)\<close>: sets \<^verbatim>\<open>created_at\<close> from
  the \<^verbatim>\<open>Timestamp\<close> key (0 when absent), which raises when the platform cannot convert
  it, and then, when a cache is given, adds \<open>self\<close> to it unless the loop broke. The result
  is the exception or the initialised entry, and the cache afterwards.
\<close>

definition LogEntry_init ::
  "(int \<Rightarrow> error + int) \<Rightarrow> 'a log_entry_scheme \<Rightarrow> int option
     \<Rightarrow> 'a log_entry_scheme keyless_cache option \<Rightarrow> ('a log_entry_scheme \<Rightarrow> bool) option
     \<Rightarrow> (error + 'a log_entry_scheme) \<times> 'a log_entry_scheme keyless_cache option" where
  "LogEntry_init localtime self0 timestamp cache dedupe =
     (case fromtimestamp localtime (get_default timestamp 0) of
        Inl e \<Rightarrow> (Inl e, cache)
      | Inr t \<Rightarrow>
          (let self = self0\<lparr>created_at := t\<rparr>
           in case cache of
                None \<Rightarrow> (Inr self, None)
              | Some c \<Rightarrow>
                  (case log_scan self dedupe (keyless_items c) of
                     Some entry \<Rightarrow> (Inr self, Some c)
                   | None \<Rightarrow> (Inr self, Some (snd (keyless_add self c))))))"

section \<open>The server cache (\<^verbatim>\<open>server.py\<close>)\<close>

text \<open>\<^verbatim>\<open>ServerPlayer\<close> and \<^verbatim>\<open>Vehicle\<close> are classes outside the sources.\<close>

typedecl server_player
typedecl vehicle

text \<open>
  \<^verbatim>\<open>ServerCache.__init__\<close> assigns exactly three attributes; the first is named
  \<open>server_players\<close> here, apart from the \<open>players\<close> of the global cache.
\<close>

record server_cache =
  server_players :: "(nat, server_player) cache"
  vehicles :: "vehicle keyless_cache"
  join_logs :: "join_entry keyless_cache"

definition ServerCache :: "nat \<times> nat \<Rightarrow> nat \<times> nat \<Rightarrow> nat \<times> nat \<Rightarrow> server_cache" where
  "ServerCache players_cfg vehicles_cfg join_logs_cfg =
     \<lparr>server_players = Cache (fst players_cfg) (snd players_cfg),
      vehicles = KeylessCache (fst vehicles_cfg) (snd vehicles_cfg) None,
      join_logs = KeylessCache (fst join_logs_cfg) (snd join_logs_cfg)
                    (Some (created_at, True))\<rparr>"

text \<open>The defaults of \<^verbatim>\<open>ServerCache.__init__\<close>: (50, 0), (50, 1 h) and (150, 6 h).\<close>

definition default_ServerCache :: server_cache where
  "default_ServerCache = ServerCache (50, 0) (50, 1 * 60 * 60) (150, 6 * 60 * 60)"

text \<open>
  Reading \<^verbatim>\<open>kill_logs\<close> or \<^verbatim>\<open>command_logs\<close> of a \<^verbatim>\<open>ServerCache\<close>: the class assigns no
  such attribute and defines no \<^verbatim>\<open>__getattr__\<close>, so the read raises
  \<^verbatim>\<open>AttributeError\<close>.
\<close>

definition kill_logs :: "server_cache \<Rightarrow> error + kill_entry keyless_cache" where
  "kill_logs sc = Inl AttributeError"

definition command_logs :: "server_cache \<Rightarrow> error + command_entry keyless_cache" where
  "command_logs sc = Inl AttributeError"

section \<open>The constructors of the log entries\<close>

text \<open>The \<^verbatim>\<open>dedupe\<close> lambdas of the three constructors that pass one.\<close>

definition join_dedupe :: "join_entry \<Rightarrow> join_entry \<Rightarrow> bool" where
  "join_dedupe self e \<longleftrightarrow> player_id (player e) = player_id (player self)"

definition kill_dedupe :: "kill_entry \<Rightarrow> kill_entry \<Rightarrow> bool" where
  "kill_dedupe self e \<longleftrightarrow> player_id (killed e) = player_id (killed self)"

definition command_dedupe :: "command_entry \<Rightarrow> command_entry \<Rightarrow> bool" where
  "command_dedupe self e \<longleftrightarrow> player_id (author e) = player_id (author self)"

text \<open>
  \<^verbatim>\<open>JoinEntry(server, data)\<close>, on the server's \<^verbatim>\<open>ServerCache\<close>: the exception or the
  entry, and the cache afterwards. \<^verbatim>\<open>created_at\<close> is assigned by \<^verbatim>\<open>LogEntry.__init__\<close>;
  the 0 before that is never read.
\<close>

definition JoinEntry ::
  "(int \<Rightarrow> error + int) \<Rightarrow> server_cache \<Rightarrow> join_data \<Rightarrow> (error + join_entry) \<times> server_cache" where
  "JoinEntry localtime sc data =
     (let self0 = \<lparr>created_at = 0, player = jd_Player data,
                   is_join = get_default (jd_Join data) False\<rparr>
      in case LogEntry_init localtime self0 (jd_Timestamp data) (Some (join_logs sc))
                (Some (join_dedupe self0)) of
           (result, Some c) \<Rightarrow> (result, sc\<lparr>join_logs := c\<rparr>)
         | (result, None) \<Rightarrow> (result, sc))"

text \<open>
  \<^verbatim>\<open>KillEntry(server, data)\<close> and \<^verbatim>\<open>CommandEntry(server, data)\<close>: the arguments of
  \<^verbatim>\<open>super().__init__\<close> are evaluated first, and among them the read of
  \<^verbatim>\<open>server._server_cache.kill_logs\<close> (\<^verbatim>\<open>command_logs\<close>).
\<close>

definition KillEntry ::
  "(int \<Rightarrow> error + int) \<Rightarrow> server_cache \<Rightarrow> kill_data
     \<Rightarrow> error + kill_entry \<times> kill_entry keyless_cache" where
  "KillEntry localtime sc data =
     (let self0 = \<lparr>created_at = 0, killed = kd_Killed data, killer = kd_Killer data\<rparr>
      in case kill_logs sc of
           Inl e \<Rightarrow> Inl e
         | Inr cache \<Rightarrow>
             (case LogEntry_init localtime self0 (kd_Timestamp data) (Some cache)
                     (Some (kill_dedupe self0)) of
                (Inl e, c) \<Rightarrow> Inl e
              | (Inr self, Some c) \<Rightarrow> Inr (self, c)
              | (Inr self, None) \<Rightarrow> Inr (self, cache)))"

definition CommandEntry ::
  "(int \<Rightarrow> error + int) \<Rightarrow> server_cache \<Rightarrow> command_data
     \<Rightarrow> error + command_entry \<times> command_entry keyless_cache" where
  "CommandEntry localtime sc data =
     (let self0 = \<lparr>created_at = 0, author = cd_Player data, command = cd_Command data\<rparr>
      in case command_logs sc of
           Inl e \<Rightarrow> Inl e
         | Inr cache \<Rightarrow>
             (case LogEntry_init localtime self0 (cd_Timestamp data) (Some cache)
                     (Some (command_dedupe self0)) of
                (Inl e, c) \<Rightarrow> Inl e
              | (Inr self, Some c) \<Rightarrow> Inr (self, c)
              | (Inr self, None) \<Rightarrow> Inr (self, cache)))"

text \<open>
  \<^verbatim>\<open>ModCallEntry(server, data)\<close>: \<^verbatim>\<open>super().__init__(data)\<close> passes neither a cache nor
  a predicate.
\<close>

definition ModCallEntry ::
  "(int \<Rightarrow> error + int) \<Rightarrow> server_cache \<Rightarrow> mod_call_data
     \<Rightarrow> (error + mod_call_entry) \<times> server_cache" where
  "ModCallEntry localtime sc data =
     (let self0 = \<lparr>created_at = 0, caller = md_Caller data,
                   responder = md_Moderator data,
                   is_acknowledged = (md_Moderator data \<noteq> None)\<rparr>
      in (fst (LogEntry_init localtime self0 (md_Timestamp data) None None), sc))"

text \<open>
  The list comprehensions of \<^verbatim>\<open>ServerLogs.get_joins\<close> and \<^verbatim>\<open>ServerLogs.get_mod_calls\<close>
  over the parsed response: one constructor call per JSON object, in order. The first
  exception ends the comprehension; what the earlier calls did to the cache stays.
\<close>

fun join_entries ::
  "(int \<Rightarrow> error + int) \<Rightarrow> server_cache \<Rightarrow> join_data list
     \<Rightarrow> (error + join_entry list) \<times> server_cache" where
  "join_entries localtime sc [] = (Inr [], sc)"
| "join_entries localtime sc (e # es) =
     (case JoinEntry localtime sc e of
        (Inl x, sc') \<Rightarrow> (Inl x, sc')
      | (Inr entry, sc') \<Rightarrow>
          (case join_entries localtime sc' es of
             (Inl x, sc'') \<Rightarrow> (Inl x, sc'')
           | (Inr rest, sc'') \<Rightarrow> (Inr (entry # rest), sc'')))"

fun mod_call_entries ::
  "(int \<Rightarrow> error + int) \<Rightarrow> server_cache \<Rightarrow> mod_call_data list
     \<Rightarrow> (error + mod_call_entry list) \<times> server_cache" where
  "mod_call_entries localtime sc [] = (Inr [], sc)"
| "mod_call_entries localtime sc (e # es) =
     (case ModCallEntry localtime sc e of
        (Inl x, sc') \<Rightarrow> (Inl x, sc')
      | (Inr entry, sc') \<Rightarrow>
          (case mod_call_entries localtime sc' es of
             (Inl x, sc'') \<Rightarrow> (Inl x, sc'')
           | (Inr rest, sc'') \<Rightarrow> (Inr (entry # rest), sc'')))"

section \<open>Clients and servers (\<^verbatim>\<open>client.py\<close>, \<^verbatim>\<open>server.py\<close>)\<close>

text \<open>
  Caches are objects that several clients and servers may refer to, so they live in a
  store and are referred to by address. A \<^verbatim>\<open>Server\<close> is kept as a value that carries
  its object identity (\<open>server_oid\<close>) and the addresses of the two cache objects it
  refers to.
\<close>

type_synonym addr = nat

record server =
  server_oid :: nat
  server_id :: py_str
  server_global_cache :: addr
  server_cache_at :: addr
  ephemeral_ttl :: int
  headers :: "(string \<times> py_str) list"
  ignore_global_key :: bool

text \<open>\<^verbatim>\<open>Player\<close> is a class outside the sources.\<close>

typedecl global_player

record global_cache =
  servers :: "(py_str, server) cache"
  players :: "(nat, global_player) cache"

text \<open>\<^verbatim>\<open>GlobalCache.__init__(servers=(2, 0), players=(100, 0))\<close>.\<close>

definition GlobalCache :: "nat \<times> nat \<Rightarrow> nat \<times> nat \<Rightarrow> global_cache" where
  "GlobalCache servers_cfg players_cfg =
     \<lparr>servers = Cache (fst servers_cfg) (snd servers_cfg),
      players = Cache (fst players_cfg) (snd players_cfg)\<rparr>"

definition default_GlobalCache :: global_cache where
  "default_GlobalCache = GlobalCache (2, 0) (100, 0)"

text \<open>
  The store: one map for the \<^verbatim>\<open>GlobalCache\<close> objects, one for the \<^verbatim>\<open>ServerCache\<close>
  objects, the next free address of each and the next object identity. The maps are total;
  an address at or above the next free one holds a value that no reference points to.
\<close>

record heap =
  global_caches :: "addr \<Rightarrow> global_cache"
  server_caches :: "addr \<Rightarrow> server_cache"
  next_global_cache :: addr
  next_server_cache :: addr
  next_oid :: nat

text \<open>
  A default argument is evaluated once, when its \<^verbatim>\<open>def\<close> statement is executed:
  \<^verbatim>\<open>cache=GlobalCache()\<close> of \<^verbatim>\<open>PRC.__init__\<close> and \<^verbatim>\<open>cache: ServerCache = ServerCache()\<close>
  of \<^verbatim>\<open>Server.__init__\<close> each create one object when the module is imported. These are
  the addresses of the two objects, and the store once both modules are imported.
\<close>

definition default_GlobalCache_at :: addr where
  "default_GlobalCache_at = 0"

definition default_ServerCache_at :: addr where
  "default_ServerCache_at = 0"

definition module_heap :: heap where
  "module_heap =
     \<lparr>global_caches = (\<lambda>a. default_GlobalCache),
      server_caches = (\<lambda>a. default_ServerCache),
      next_global_cache = 1, next_server_cache = 1, next_oid = 0\<rparr>"

text \<open>A call \<^verbatim>\<open>GlobalCache(...)\<close> or \<^verbatim>\<open>ServerCache(...)\<close> made by the user: a new object.\<close>

definition GlobalCache_new :: "nat \<times> nat \<Rightarrow> nat \<times> nat \<Rightarrow> heap \<Rightarrow> addr \<times> heap" where
  "GlobalCache_new servers_cfg players_cfg h =
     (next_global_cache h,
      h\<lparr>global_caches := (global_caches h)
           (next_global_cache h := GlobalCache servers_cfg players_cfg),
        next_global_cache := Suc (next_global_cache h)\<rparr>)"

definition ServerCache_new ::
  "nat \<times> nat \<Rightarrow> nat \<times> nat \<Rightarrow> nat \<times> nat \<Rightarrow> heap \<Rightarrow> addr \<times> heap" where
  "ServerCache_new players_cfg vehicles_cfg join_logs_cfg h =
     (next_server_cache h,
      h\<lparr>server_caches := (server_caches h)
           (next_server_cache h := ServerCache players_cfg vehicles_cfg join_logs_cfg),
        next_server_cache := Suc (next_server_cache h)\<rparr>)"

record prc =
  global_key :: "py_str option"
  default_server_key :: "py_str option"
  base_url :: py_str
  prc_global_cache :: addr

text \<open>The truth value of an \<^verbatim>\<open>Optional[str]\<close>: false for \<^verbatim>\<open>None\<close> and for the empty string.\<close>

definition truthy :: "py_str option \<Rightarrow> bool" where
  "truthy s = (case s of None \<Rightarrow> False | Some k \<Rightarrow> k \<noteq> [])"

text \<open>
  \<^verbatim>\<open>PRC.__init__(global_key=None, default_server_key=None, base_url=..., cache=GlobalCache())\<close>;
  \<open>cache = None\<close> stands for a call without the argument, which binds the parameter to
  the default object.
\<close>

definition PRC_init ::
  "py_str option \<Rightarrow> py_str option \<Rightarrow> py_str \<Rightarrow> addr option \<Rightarrow> error + prc" where
  "PRC_init gkey dkey url cache =
     (case (case dkey of
              None \<Rightarrow> Inr ()
            | Some k \<Rightarrow> if k \<noteq> [] then validate_server_key k else Inr ()) of
        Inl e \<Rightarrow> Inl e
      | Inr u \<Rightarrow>
          Inr \<lparr>global_key = gkey, default_server_key = dkey, base_url = url,
               prc_global_cache =
                 (case cache of None \<Rightarrow> default_GlobalCache_at | Some a \<Rightarrow> a)\<rparr>)"

text \<open>
  \<^verbatim>\<open>Server.__init__(client, server_key, ephemeral_ttl=5, cache=ServerCache(),
  requests=None, ignore_global_key=False)\<close>. The \<^verbatim>\<open>Requests\<close> object (a class outside the
  sources) is represented by the headers it is built with.
\<close>

definition Server_init ::
  "prc \<Rightarrow> py_str \<Rightarrow> int \<Rightarrow> addr option \<Rightarrow> bool \<Rightarrow> heap \<Rightarrow> error + server \<times> heap" where
  "Server_init client server_key ttl cache ignore h =
     (case validate_server_key server_key of
        Inl e \<Rightarrow> Inl e
      | Inr u \<Rightarrow>
          (case get_server_id server_key of
             Inl e \<Rightarrow> Inl e
           | Inr sid \<Rightarrow>
               Inr (\<lparr>server_oid = next_oid h,
                     server_id = sid,
                     server_global_cache = prc_global_cache client,
                     server_cache_at =
                       (case cache of None \<Rightarrow> default_ServerCache_at | Some a \<Rightarrow> a),
                     ephemeral_ttl = ttl,
                     headers =
                       (''Server-Key'', server_key) #
                       (case global_key client of
                          None \<Rightarrow> []
                        | Some g \<Rightarrow>
                            if g \<noteq> [] \<and> \<not> ignore then [(''Authorization'', g)] else []),
                     ignore_global_key = ignore\<rparr>,
                    h\<lparr>next_oid := Suc (next_oid h)\<rparr>)))"

text \<open>
  The event loop runs one task at a time. A task runs from where it starts, or is
  resumed, to its next \<^verbatim>\<open>await\<close> or to its return, and only at an \<^verbatim>\<open>await\<close> can
  another task run and change the store. A task is written as the steps it takes on the
  store: it returns, reads the store and goes on by what it finds, changes the store, or
  awaits. The body of a plain \<^verbatim>\<open>def\<close> has no \<^verbatim>\<open>await\<close>, that of an \<^verbatim>\<open>async def\<close> may.
\<close>

datatype ('s, 'a) task =
    Return 'a
  | Read "'s \<Rightarrow> ('s, 'a) task"
  | Write "'s \<Rightarrow> 's" "('s, 'a) task"
  | Await "('s, 'a) task"

text \<open>
  One segment of a task: the store when it returns or suspends, with the value returned or
  the rest of the task to resume.
\<close>

primrec segment :: "('s, 'a) task \<Rightarrow> 's \<Rightarrow> 's \<times> ('a + ('s, 'a) task)" where
  "segment (Return a) s = (s, Inl a)"
| "segment (Read k) s = segment (k s) s"
| "segment (Write f k) s = segment k (f s)"
| "segment (Await k) s = (s, Inr k)"

text \<open>The task run to its return with no other task scheduled in between.\<close>

primrec run :: "('s, 'a) task \<Rightarrow> 's \<Rightarrow> 's \<times> 'a" where
  "run (Return a) s = (s, a)"
| "run (Read k) s = run (k s) s"
| "run (Write f k) s = run k (f s)"
| "run (Await k) s = run k s"

text \<open>A call of a method: the exception raised, or the value returned and the store then.\<close>

definition call :: "('s, error + 'a) task \<Rightarrow> 's \<Rightarrow> error + 'a \<times> 's" where
  "call t s = (case run t s of (s', Inl e) \<Rightarrow> Inl e | (s', Inr a) \<Rightarrow> Inr (a, s'))"

text \<open>
  The last statement of \<^verbatim>\<open>PRC.get_server\<close>:
  \<^verbatim>\<open>
  return self._global_cache.servers.set(
      server_id,
      Server(client=self, server_key=server_key, ignore_global_key=ignore_global_key),
  )
  \<close>
  The \<^verbatim>\<open>Server\<close> is constructed first, then stored.
\<close>

definition set_new_server_task ::
  "prc \<Rightarrow> py_str \<Rightarrow> bool \<Rightarrow> py_str \<Rightarrow> real \<Rightarrow> (heap, error + server) task" where
  "set_new_server_task self server_key ignore sid now =
     Read (\<lambda>h.
       case Server_init self server_key 5 None ignore h of
         Inl e \<Rightarrow> Return (Inl e)
       | Inr (srv, h1) \<Rightarrow>
           Write (\<lambda>h. h1)
             (Read (\<lambda>h2.
                let gc = global_caches h2 (prc_global_cache self);
                    stored = cache_set now sid srv (servers gc)
                in Write (\<lambda>h3. h3\<lparr>global_caches := (global_caches h3)
                                    (prc_global_cache self := gc\<lparr>servers := snd stored\<rparr>)\<rparr>)
                     (Return (Inr (fst stored))))))"

definition set_new_server ::
  "prc \<Rightarrow> py_str \<Rightarrow> bool \<Rightarrow> py_str \<Rightarrow> real \<Rightarrow> heap \<Rightarrow> error + server \<times> heap" where
  "set_new_server self server_key ignore sid now h =
     call (set_new_server_task self server_key ignore sid now) h"

text \<open>
  \<^verbatim>\<open>
  def get_server(self, server_key=None, ignore_global_key=False):
      if not server_key:
          server_key = self._default_server_key
      if not server_key:
          raise ValueError("No [default] server-key provided but is required")
      self._validate_server_key(server_key)
      server_id = self._get_server_id(server_key)
      existing_server = self._global_cache.servers.get(server_id)
      if existing_server and existing_server._ignore_global_key == ignore_global_key:
          return existing_server
      return self._global_cache.servers.set(server_id, Server(...))
  \<close>
  A \<^verbatim>\<open>Server\<close> defines neither \<^verbatim>\<open>__bool__\<close> nor \<^verbatim>\<open>__len__\<close>, so a cached server is
  true. The method is a plain \<^verbatim>\<open>def\<close> whose body calls plain functions only: its steps
  are a read of the store and, on the second path, the construction and the write.
\<close>

definition get_server_task ::
  "prc \<Rightarrow> py_str option \<Rightarrow> bool \<Rightarrow> real \<Rightarrow> (heap, error + server) task" where
  "get_server_task self server_key ignore now =
     (case (if \<not> truthy server_key then default_server_key self else server_key) of
        None \<Rightarrow> Return (Inl ValueError)
      | Some k \<Rightarrow>
          if k = [] then Return (Inl ValueError)
          else
            (case validate_server_key k of
               Inl e \<Rightarrow> Return (Inl e)
             | Inr u \<Rightarrow>
                 (case get_server_id k of
                    Inl e \<Rightarrow> Return (Inl e)
                  | Inr sid \<Rightarrow>
                      Read (\<lambda>h.
                        case cache_get now sid
                               (servers (global_caches h (prc_global_cache self))) of
                          None \<Rightarrow> set_new_server_task self k ignore sid now
                        | Some existing_server \<Rightarrow>
                            if ignore_global_key existing_server = ignore
                            then Return (Inr existing_server)
                            else set_new_server_task self k ignore sid now))))"

definition get_server ::
  "prc \<Rightarrow> py_str option \<Rightarrow> bool \<Rightarrow> real \<Rightarrow> heap \<Rightarrow> error + server \<times> heap" where
  "get_server self server_key ignore now h =
     call (get_server_task self server_key ignore now) h"

text \<open>
  \<^verbatim>\<open>JoinEntry(server, data)\<close> on the store: the cache is \<^verbatim>\<open>server._server_cache\<close>.
\<close>

definition JoinEntry_at ::
  "(int \<Rightarrow> error + int) \<Rightarrow> server \<Rightarrow> join_data \<Rightarrow> heap \<Rightarrow> (error + join_entry) \<times> heap" where
  "JoinEntry_at localtime srv data h =
     (case JoinEntry localtime (server_caches h (server_cache_at srv)) data of
        (result, sc) \<Rightarrow>
          (result, h\<lparr>server_caches := (server_caches h)(server_cache_at srv := sc)\<rparr>))"

text \<open>Two well-formed server keys with different ids, for the scenarios below.\<close>

definition key_A :: py_str where
  "key_A = replicate 10 97 @ 45 # replicate 40 98"

definition key_B :: py_str where
  "key_B = replicate 10 97 @ 45 # replicate 40 99"

section \<open>The decorator \<^verbatim>\<open>_ephemeral\<close> (\<^verbatim>\<open>server.py\<close>)\<close>

text \<open>
  The part of \<^verbatim>\<open>self\<close> that the wrapper reads and writes: \<^verbatim>\<open>_ephemeral_ttl\<close> and the
  attributes that hold a pair of a result and a clock reading; \<open>cache_attrs self name\<close> is
  \<open>None\<close> when \<^verbatim>\<open>hasattr(self, name)\<close> is false. No decorated method assigns an
  attribute of that name itself.
\<close>

record 'r ephemeral_self =
  cache_attrs :: "string \<rightharpoonup> 'r \<times> real"
  self_ephemeral_ttl :: int

text \<open>
  The clock readings are Python floats, IEEE 754 doubles, and \<^verbatim>\<open>a - b\<close> on floats is the
  exact difference rounded to the nearest double, ties to the even significand. A double
  is a real number here, and the rounding is to 53 significant bits: \<open>rne\<close> rounds to
  the nearest integer, ties to even; \<open>exponent x\<close> is the \<open>e\<close> with
  \<open>2\<^sup>e \<le> \<bar>x\<bar> < 2\<^sup>e\<^sup>+\<^sup>1\<close>; \<open>ulp x\<close> is the spacing of the doubles there. The exponent
  range is not bounded: clock readings are far from overflow, and a difference of two
  doubles that is below the normal range is exact in both.
\<close>

definition rne :: "real \<Rightarrow> int" where
  "rne x =
     (let f = \<lfloor>x\<rfloor>; r = x - of_int f
      in if r < 1 / 2 then f
         else if 1 / 2 < r then f + 1
         else if even f then f else f + 1)"

definition exponent :: "real \<Rightarrow> int" where
  "exponent x = \<lfloor>log 2 \<bar>x\<bar>\<rfloor>"

definition ulp :: "real \<Rightarrow> real" where
  "ulp x = power_int 2 (exponent x - 52)"

definition round_double :: "real \<Rightarrow> real" where
  "round_double x = (if x = 0 then 0 else of_int (rne (x / ulp x)) * ulp x)"

text \<open>The float subtraction \<^verbatim>\<open>a - b\<close>.\<close>

definition fsub :: "real \<Rightarrow> real \<Rightarrow> real" where
  "fsub a b = round_double (a - b)"

text \<open>
  The decorated coroutine is a function of the world \<open>'w\<close> outside those attributes (the
  network, the caches, the clock): it returns the exception it raises or its result, and
  the world when it is done. \<open>time\<close> reads \<^verbatim>\<open>asyncio.get_event_loop().time()\<close> off the
  world. The two statements after the test:
  \<^verbatim>\<open>
  result = await func(self, *args, **kwargs)
  setattr(self, cache_key, (result, asyncio.get_event_loop().time()))
  return result
  \<close>
\<close>

definition ephemeral_call ::
  "('w \<Rightarrow> real) \<Rightarrow> string \<Rightarrow> ('w \<Rightarrow> ('x + 'r) \<times> 'w) \<Rightarrow> 'r ephemeral_self \<Rightarrow> 'w
     \<Rightarrow> ('x + 'r) \<times> 'r ephemeral_self \<times> 'w" where
  "ephemeral_call time cache_key func self w =
     (case func w of
        (Inl e, w') \<Rightarrow> (Inl e, self, w')
      | (Inr result, w') \<Rightarrow>
          (Inr result,
           self\<lparr>cache_attrs := (cache_attrs self)(cache_key \<mapsto> (result, time w'))\<rparr>,
           w'))"

text \<open>
  \<^verbatim>\<open>
  async def wrapper(self, *args, **kwargs):
      cache_key = f"{func.__name__}_cache"
      if hasattr(self, cache_key):
          cached_result, timestamp = getattr(self, cache_key)
          if (asyncio.get_event_loop().time() - timestamp) < self._ephemeral_ttl:
              return cached_result
      ...
  \<close>
  The comparison of the float difference with the \<^verbatim>\<open>int\<close> \<^verbatim>\<open>_ephemeral_ttl\<close> is exact.
\<close>

definition ephemeral ::
  "('w \<Rightarrow> real) \<Rightarrow> string \<Rightarrow> ('w \<Rightarrow> ('x + 'r) \<times> 'w) \<Rightarrow> 'r ephemeral_self \<Rightarrow> 'w
     \<Rightarrow> ('x + 'r) \<times> 'r ephemeral_self \<times> 'w" where
  "ephemeral time func_name func self w =
     (let cache_key = func_name @ ''_cache''
      in case cache_attrs self cache_key of
           None \<Rightarrow> ephemeral_call time cache_key func self w
         | Some (cached_result, timestamp) \<Rightarrow>
             if fsub (time w) timestamp < real_of_int (self_ephemeral_ttl self)
             then (Inr cached_result, self, w)
             else ephemeral_call time cache_key func self w)"

text \<open>
  A count of the executions of a body: the world is paired with the number of times the
  body has been run.
\<close>

definition counted :: "('w \<Rightarrow> 'a \<times> 'w) \<Rightarrow> 'w \<times> nat \<Rightarrow> 'a \<times> ('w \<times> nat)" where
  "counted func wn = (case func (fst wn) of (r, w') \<Rightarrow> (r, (w', Suc (snd wn))))"

text \<open>
  A body for the scenarios: the world is the clock; the call takes one second and returns
  the time at which it was started, or raises when started at a negative time.
\<close>

definition probe :: "real \<Rightarrow> (string + real) \<times> real" where
  "probe w = (if w < 0 then (Inl ''offline'', w + 1) else (Inr w, w + 1))"

section \<open>Key parsing: proofs\<close>

lemma hyphen_no_letter: "\<not> letter 45"
  by (simp add: letter_def)

lemma newline_no_letter: "\<not> letter 10"
  by (simp add: letter_def)

lemma split_nonempty: "split sep xs \<noteq> []"
  by (induction xs) (auto split: list.splits)

lemma split_no_sep: "sep \<notin> set xs \<Longrightarrow> split sep xs = [xs]"
  by (induction xs) auto

lemma split_at_first: "sep \<notin> set a \<Longrightarrow> split sep (a @ sep # r) = a # split sep r"
  by (induction a) (auto split: list.splits)

lemma letters_no_hyphen: "list_all letter a \<Longrightarrow> 45 \<notin> set a"
  using hyphen_no_letter by (auto simp: list_all_iff)

lemma letters_no_newline: "list_all letter a \<Longrightarrow> 10 \<notin> set a"
  using newline_no_letter by (auto simp: list_all_iff)

lemma takeWhile_letters:
  "list_all letter a \<Longrightarrow> \<not> letter c \<Longrightarrow> takeWhile letter (a @ c # r) = a"
  by (induction a) auto

lemma dropWhile_letters:
  "list_all letter a \<Longrightarrow> \<not> letter c \<Longrightarrow> dropWhile letter (a @ c # r) = c # r"
  by (induction a) auto

lemma takeWhile_all_letters: "list_all letter a \<Longrightarrow> takeWhile letter a = a"
  by (induction a) auto

lemma dropWhile_all_letters: "list_all letter a \<Longrightarrow> dropWhile letter a = []"
  by (induction a) auto

lemma matches_imp_re_match:
  assumes "matches_pattern k"
  shows "re_match_server_key k"
proof -
  from assms obtain a b nl where k: "k = a @ 45 # b @ nl"
    and a: "list_all letter a" "10 \<le> length a"
    and b: "list_all letter b" "40 \<le> length b" and nl: "nl = [] \<or> nl = [10]"
    unfolding matches_pattern_def by blast
  have pre: "takeWhile letter k = a" "dropWhile letter k = 45 # b @ nl"
    using a(1) hyphen_no_letter by (simp_all add: k takeWhile_letters dropWhile_letters)
  have post: "takeWhile letter (b @ nl) = b" "dropWhile letter (b @ nl) = nl"
    using nl b(1) newline_no_letter
    by (auto simp: takeWhile_all_letters dropWhile_all_letters
        takeWhile_letters dropWhile_letters simp del: dropWhile_eq_Nil_conv)
  show ?thesis
    using a(2) b(2) nl
    by (simp only: re_match_server_key_def Let_def pre list.case post)
qed

lemma re_match_imp_matches:
  assumes "re_match_server_key k"
  shows "matches_pattern k"
proof -
  define a where "a = takeWhile letter k"
  define r where "r = dropWhile letter k"
  have k: "k = a @ r" by (simp add: a_def r_def)
  from assms have m: "10 \<le> length a \<and>
      (case r of [] \<Rightarrow> False
       | c # r' \<Rightarrow> c = 45 \<and> 40 \<le> length (takeWhile letter r') \<and>
           (dropWhile letter r' = [] \<or> dropWhile letter r' = [10]))"
    unfolding re_match_server_key_def Let_def a_def r_def .
  then have la: "10 \<le> length a" and r_ne: "r \<noteq> []"
    by (auto split: list.splits)
  then obtain c r' where r: "r = c # r'" by (cases r) auto
  define b where "b = takeWhile letter r'"
  define t where "t = dropWhile letter r'"
  from m have c: "c = 45" and lb: "40 \<le> length b" and t: "t = [] \<or> t = [10]"
    unfolding r list.case b_def t_def by blast+
  have "r' = b @ t" by (simp add: b_def t_def)
  moreover have "list_all letter a" "list_all letter b"
    by (auto simp: a_def b_def list_all_iff dest: set_takeWhileD)
  ultimately show ?thesis
    unfolding matches_pattern_def using k r c la lb t by blast
qed

lemma re_match_iff: "re_match_server_key k \<longleftrightarrow> matches_pattern k"
  using matches_imp_re_match re_match_imp_matches by blast

lemma split_matching_key:
  assumes "list_all letter a" "list_all letter b" "nl = [] \<or> nl = [10]"
  shows "split 45 (a @ 45 # b @ nl) = [a, b @ nl]"
proof -
  have "45 \<notin> set (b @ nl)"
    using assms(2,3) letters_no_hyphen by auto
  then show ?thesis
    using assms(1) by (simp add: split_at_first split_no_sep letters_no_hyphen)
qed

lemma letters_replicate: "letter c \<Longrightarrow> list_all letter (replicate n c)"
  by (simp add: list_all_iff)

lemma example_key_matches:
  assumes "nl = [] \<or> nl = [10]"
  shows "matches_pattern (replicate 10 97 @ 45 # replicate 40 98 @ nl)"
proof -
  have "list_all letter (replicate 10 97)" "list_all letter (replicate 40 98)"
    by (simp_all add: letters_replicate letter_def)
  with assms show ?thesis
    unfolding matches_pattern_def
    by (intro exI[of _ "replicate 10 97"] exI[of _ "replicate 40 98"] exI[of _ nl]) simp
qed

text \<open>
  C10, as amended. \<^verbatim>\<open>_validate_server_key\<close> raises \<^verbatim>\<open>ValueError\<close> exactly when the key does not match
  the pattern; a key it accepts is ten or more letters, a hyphen, forty or more letters
  and at most one final line feed, so its split on the hyphen has exactly two parts and
  \<^verbatim>\<open>_get_server_id\<close> returns the second one without an \<^verbatim>\<open>IndexError\<close>: the
  forty or more letters, followed by the line feed when the key ends in one.
\<close>

theorem server_key_parsing_safe:
  "(validate_server_key k = Inl ValueError \<longleftrightarrow> \<not> matches_pattern k) \<and>
   (validate_server_key k = Inr () \<longrightarrow>
      (\<exists>a b nl. k = a @ 45 # b @ nl \<and>
         list_all letter a \<and> 10 \<le> length a \<and>
         list_all letter b \<and> 40 \<le> length b \<and> (nl = [] \<or> nl = [10]) \<and>
         split 45 k = [a, b @ nl] \<and> length (split 45 k) = 2 \<and>
         get_server_id k = Inr (b @ nl)))"
proof (intro conjI impI)
  show "validate_server_key k = Inl ValueError \<longleftrightarrow> \<not> matches_pattern k"
    by (simp add: validate_server_key_def re_match_iff)
next
  assume "validate_server_key k = Inr ()"
  then have "matches_pattern k"
    by (simp add: validate_server_key_def re_match_iff split: if_splits)
  then obtain a b nl where k: "k = a @ 45 # b @ nl"
    and a: "list_all letter a" "10 \<le> length a"
    and b: "list_all letter b" "40 \<le> length b" and nl: "nl = [] \<or> nl = [10]"
    unfolding matches_pattern_def by blast
  have s: "split 45 k = [a, b @ nl]"
    unfolding k using a(1) b(1) nl by (rule split_matching_key)
  then have "get_server_id k = Inr (b @ nl)"
    by (simp add: get_server_id_def)
  with k a b nl s show "\<exists>a b nl. k = a @ 45 # b @ nl \<and>
         list_all letter a \<and> 10 \<le> length a \<and>
         list_all letter b \<and> 40 \<le> length b \<and> (nl = [] \<or> nl = [10]) \<and>
         split 45 k = [a, b @ nl] \<and> length (split 45 k) = 2 \<and>
         get_server_id k = Inr (b @ nl)"
    by (intro exI[of _ a] exI[of _ b] exI[of _ nl]) simp
qed

theorem server_key_parsing_safe_witness:
  "validate_server_key (replicate 10 97 @ 45 # replicate 40 98) = Inr () \<and>
   length (split 45 (replicate 10 97 @ 45 # replicate 40 (98::nat))) = 2 \<and>
   get_server_id (replicate 10 97 @ 45 # replicate 40 98) = Inr (replicate 40 98) \<and>
   validate_server_key (replicate 10 97 @ [45]) = Inl ValueError"
proof -
  let ?k = "replicate 10 97 @ 45 # replicate 40 (98::nat)"
  have m: "matches_pattern ?k"
    using example_key_matches[of "[]"] by simp
  have "validate_server_key ?k \<noteq> Inl ValueError"
    using m server_key_parsing_safe[of ?k] by blast
  then have ok: "validate_server_key ?k = Inr ()"
    by (simp add: validate_server_key_def split: if_splits)
  then obtain a b nl where "split 45 ?k = [a, b @ nl]" "length (split 45 ?k) = 2"
    "get_server_id ?k = Inr (b @ nl)"
    using server_key_parsing_safe[of ?k] by blast
  moreover have "split 45 ?k = [replicate 10 97, replicate 40 98]"
    using split_matching_key[of "replicate 10 97" "replicate 40 98" "[]"]
    by (simp add: letters_replicate letter_def)
  moreover have "validate_server_key (replicate 10 97 @ [45]) = Inl ValueError"
  proof -
    have "\<not> matches_pattern (replicate 10 97 @ [45])"
    proof
      assume "matches_pattern (replicate 10 97 @ [45])"
      then obtain a b nl where eq: "replicate 10 97 @ [45] = a @ 45 # b @ nl"
        and a: "list_all letter a" and b: "40 \<le> length b"
        unfolding matches_pattern_def by blast
      from eq have "length (replicate 10 (97::nat) @ [45]) = length (a @ 45 # b @ nl)"
        by simp
      with b show False by simp
    qed
    then show ?thesis using server_key_parsing_safe[of "replicate 10 97 @ [45]"] by blast
  qed
  ultimately show ?thesis using ok by simp
qed

text \<open>
  The anchor \<^verbatim>\<open>$\<close> lets one final line feed through: the key of ten letters, a hyphen,
  forty letters and a line feed is accepted, and the id returned for it is the forty
  letters with the line feed, which is not a run of letters.
\<close>

theorem server_key_trailing_newline_counterexample:
  "validate_server_key (replicate 10 97 @ 45 # replicate 40 98 @ [10]) = Inr () \<and>
   get_server_id (replicate 10 97 @ 45 # replicate 40 98 @ [10]) = Inr (replicate 40 98 @ [10]) \<and>
   \<not> list_all letter (replicate 40 98 @ [10])"
proof -
  have "matches_pattern (replicate 10 97 @ 45 # replicate 40 98 @ [10])"
    using example_key_matches[of "[10]"] by simp
  moreover have "split 45 (replicate 10 97 @ 45 # replicate 40 98 @ [10::nat])
      = [replicate 10 97, replicate 40 98 @ [10]]"
    using split_matching_key[of "replicate 10 97" "replicate 40 98" "[10]"]
    by (simp add: letters_replicate letter_def)
  moreover have "\<not> list_all letter (replicate 40 98 @ [10])"
    using newline_no_letter by simp
  ultimately show ?thesis
    by (simp add: validate_server_key_def re_match_iff get_server_id_def)
qed

section \<open>Log entries: proofs\<close>

lemma set_keyless_items: "set (keyless_items c) = set (k_items c)"
  by (simp add: keyless_items_def split: option.splits prod.splits)

lemma log_scan_find:
  "log_scan self (Some d) xs = find (\<lambda>e. created_at e = created_at self \<and> d e) xs"
  by (induction xs) auto

lemma log_scan_no_predicate:
  "log_scan self None xs = find (\<lambda>e. created_at e = created_at self) xs"
  by (induction xs) auto

lemma log_scan_first_match:
  assumes "\<forall>x \<in> set pre. \<not> (created_at x = created_at self \<and> d x)"
    and "created_at e = created_at self" and "d e"
  shows "log_scan self (Some d) (pre @ e # post) = Some e"
  using assms by (induction pre) auto

lemma keyless_add_member: "item \<in> set (k_items (snd (keyless_add item c)))"
  by (simp add: keyless_add_def Let_def)

lemma linux_utc_examples:
  "fromtimestamp linux_utc (get_default (Some 100) 0) = Inr 100"
  "fromtimestamp linux_utc (get_default None 0) = Inr 0"
  "fromtimestamp linux_utc (get_default (Some 1000000000000) 0) = Inl ValueError"
  "fromtimestamp linux_utc (get_default (Some (10 ^ 30)) 0) = Inl OverflowError"
  by (simp_all add: fromtimestamp_def linux_utc_def get_default_def)

lemma JoinEntry_raises:
  assumes "fromtimestamp localtime (get_default (jd_Timestamp data) 0) = Inl e"
  shows "JoinEntry localtime sc data = (Inl e, sc)"
  using assms by (simp add: JoinEntry_def LogEntry_init_def)

lemma JoinEntry_fst:
  assumes "fromtimestamp localtime (get_default (jd_Timestamp data) 0) = Inr t"
  shows "fst (JoinEntry localtime sc data) =
     Inr \<lparr>created_at = t, player = jd_Player data, is_join = get_default (jd_Join data) False\<rparr>"
  using assms by (simp add: JoinEntry_def LogEntry_init_def Let_def split: option.splits)

lemma JoinEntry_snd:
  assumes conv: "fromtimestamp localtime (get_default (jd_Timestamp data) 0) = Inr t"
  shows "snd (JoinEntry localtime sc data) =
     (if \<exists>e \<in> set (k_items (join_logs sc)).
           created_at e = t \<and> player_id (player e) = player_id (jd_Player data)
      then sc
      else sc\<lparr>join_logs := snd (keyless_add
             \<lparr>created_at = t, player = jd_Player data,
              is_join = get_default (jd_Join data) False\<rparr> (join_logs sc))\<rparr>)"
proof -
  let ?self = "\<lparr>created_at = t, player = jd_Player data,
      is_join = get_default (jd_Join data) False\<rparr>"
  let ?init = "\<lparr>created_at = 0, player = jd_Player data,
      is_join = get_default (jd_Join data) False\<rparr>"
  let ?scan = "log_scan ?self (Some (join_dedupe ?init)) (keyless_items (join_logs sc))"
  have scan: "?scan = None \<longleftrightarrow>
      \<not> (\<exists>e \<in> set (k_items (join_logs sc)).
           created_at e = t \<and> player_id (player e) = player_id (jd_Player data))"
    by (auto simp add: log_scan_find find_None_iff set_keyless_items join_dedupe_def)
  show ?thesis
  proof (cases ?scan)
    case None
    then have n: "\<not> (\<exists>e \<in> set (k_items (join_logs sc)).
           created_at e = t \<and> player_id (player e) = player_id (jd_Player data))"
      using scan by blast
    have eq: "JoinEntry localtime sc data =
        (Inr ?self, sc\<lparr>join_logs := snd (keyless_add ?self (join_logs sc))\<rparr>)"
      using None conv by (simp add: JoinEntry_def LogEntry_init_def Let_def)
    show ?thesis
      unfolding eq snd_conv by (simp only: n if_False)
  next
    case (Some entry)
    then have y: "\<exists>e \<in> set (k_items (join_logs sc)).
           created_at e = t \<and> player_id (player e) = player_id (jd_Player data)"
      using scan by auto
    have eq: "JoinEntry localtime sc data = (Inr ?self, sc)"
      using Some conv by (simp add: JoinEntry_def LogEntry_init_def Let_def)
    show ?thesis
      unfolding eq snd_conv by (simp only: y if_True)
  qed
qed

text \<open>
  C1. Where \<^verbatim>\<open>datetime.fromtimestamp\<close> raises, \<^verbatim>\<open>JoinEntry\<close> raises the same exception
  and the cache is left as it was. Where it yields \<open>t\<close>, the entry is constructed with
  \<^verbatim>\<open>created_at\<close> \<open>t\<close> and it is added to the server's join log exactly when no stored
  entry has the same \<^verbatim>\<open>created_at\<close> and the same player id: with such an entry the cache
  is left as it was, without one the candidate is added (so a candidate whose timestamp
  matches only entries of other players is added). The scan breaks at the first entry of
  \<^verbatim>\<open>items()\<close> that satisfies both conditions.
\<close>

theorem join_log_dedup:
  "(\<forall>e. fromtimestamp localtime (get_default (jd_Timestamp data) 0) = Inl e \<longrightarrow>
      JoinEntry localtime sc data = (Inl e, sc)) \<and>
   (\<forall>t. fromtimestamp localtime (get_default (jd_Timestamp data) 0) = Inr t \<longrightarrow>
      (let self = \<lparr>created_at = t, player = jd_Player data,
                    is_join = get_default (jd_Join data) False\<rparr>;
           dup = (\<lambda>e. created_at e = created_at self \<and>
                        player_id (player e) = player_id (player self))
       in fst (JoinEntry localtime sc data) = Inr self \<and>
          ((\<exists>e \<in> set (k_items (join_logs sc)). dup e) \<longrightarrow>
             snd (JoinEntry localtime sc data) = sc) \<and>
          ((\<forall>e \<in> set (k_items (join_logs sc)).
               created_at e = created_at self \<longrightarrow>
               player_id (player e) \<noteq> player_id (player self)) \<longrightarrow>
             snd (JoinEntry localtime sc data) =
               sc\<lparr>join_logs := snd (keyless_add self (join_logs sc))\<rparr> \<and>
             self \<in> set (k_items (join_logs (snd (JoinEntry localtime sc data))))) \<and>
          log_scan self (Some (join_dedupe self)) (keyless_items (join_logs sc)) =
            find dup (keyless_items (join_logs sc))))"
proof (intro conjI allI impI)
  fix e
  assume "fromtimestamp localtime (get_default (jd_Timestamp data) 0) = Inl e"
  then show "JoinEntry localtime sc data = (Inl e, sc)"
    by (rule JoinEntry_raises)
next
  fix t
  assume conv: "fromtimestamp localtime (get_default (jd_Timestamp data) 0) = Inr t"
  let ?self = "\<lparr>created_at = t, player = jd_Player data,
      is_join = get_default (jd_Join data) False\<rparr>"
  let ?dup = "\<lambda>e. created_at e = created_at ?self \<and>
                     player_id (player e) = player_id (player ?self)"
  let ?cond = "\<exists>e \<in> set (k_items (join_logs sc)).
      created_at e = t \<and> player_id (player e) = player_id (jd_Player data)"
  note snd_eq = JoinEntry_snd[OF conv, of sc]
  have a: "fst (JoinEntry localtime sc data) = Inr ?self"
    using conv by (rule JoinEntry_fst)
  have c: "(\<exists>e \<in> set (k_items (join_logs sc)). ?dup e) \<longrightarrow>
      snd (JoinEntry localtime sc data) = sc"
  proof
    assume "\<exists>e \<in> set (k_items (join_logs sc)). ?dup e"
    then have y: ?cond by simp
    show "snd (JoinEntry localtime sc data) = sc"
      using y snd_eq by (simp only: if_True)
  qed
  have d: "(\<forall>e \<in> set (k_items (join_logs sc)).
            created_at e = created_at ?self \<longrightarrow>
            player_id (player e) \<noteq> player_id (player ?self)) \<longrightarrow>
          snd (JoinEntry localtime sc data) =
            sc\<lparr>join_logs := snd (keyless_add ?self (join_logs sc))\<rparr> \<and>
          ?self \<in> set (k_items (join_logs (snd (JoinEntry localtime sc data))))"
  proof
    assume "\<forall>e \<in> set (k_items (join_logs sc)).
            created_at e = created_at ?self \<longrightarrow>
            player_id (player e) \<noteq> player_id (player ?self)"
    then have n: "\<not> ?cond" by simp
    have s: "snd (JoinEntry localtime sc data) =
        sc\<lparr>join_logs := snd (keyless_add ?self (join_logs sc))\<rparr>"
      using n snd_eq by (simp only: if_False)
    moreover have "?self \<in> set (k_items (join_logs (snd (JoinEntry localtime sc data))))"
      by (subst s) (simp add: keyless_add_member)
    ultimately show "snd (JoinEntry localtime sc data) =
        sc\<lparr>join_logs := snd (keyless_add ?self (join_logs sc))\<rparr> \<and>
        ?self \<in> set (k_items (join_logs (snd (JoinEntry localtime sc data))))" by blast
  qed
  have e: "log_scan ?self (Some (join_dedupe ?self)) (keyless_items (join_logs sc)) =
      find ?dup (keyless_items (join_logs sc))"
    by (simp add: log_scan_find join_dedupe_def)
  from a c d e show "let self = ?self;
           dup = (\<lambda>e. created_at e = created_at self \<and>
                        player_id (player e) = player_id (player self))
       in fst (JoinEntry localtime sc data) = Inr self \<and>
          ((\<exists>e \<in> set (k_items (join_logs sc)). dup e) \<longrightarrow>
             snd (JoinEntry localtime sc data) = sc) \<and>
          ((\<forall>e \<in> set (k_items (join_logs sc)).
               created_at e = created_at self \<longrightarrow>
               player_id (player e) \<noteq> player_id (player self)) \<longrightarrow>
             snd (JoinEntry localtime sc data) =
               sc\<lparr>join_logs := snd (keyless_add self (join_logs sc))\<rparr> \<and>
             self \<in> set (k_items (join_logs (snd (JoinEntry localtime sc data))))) \<and>
          log_scan self (Some (join_dedupe self)) (keyless_items (join_logs sc)) =
            find dup (keyless_items (join_logs sc))"
    unfolding Let_def by blast
qed

theorem join_log_dedup_witness:
  "snd (JoinEntry linux_utc
          (snd (JoinEntry linux_utc default_ServerCache
             \<lparr>jd_Player = \<lparr>player_name = ''a'', player_id = 11\<rparr>, jd_Join = Some True,
              jd_Timestamp = Some 100\<rparr>))
          \<lparr>jd_Player = \<lparr>player_name = ''a'', player_id = 11\<rparr>, jd_Join = Some True,
           jd_Timestamp = Some 100\<rparr>)
     = snd (JoinEntry linux_utc default_ServerCache
             \<lparr>jd_Player = \<lparr>player_name = ''a'', player_id = 11\<rparr>, jd_Join = Some True,
              jd_Timestamp = Some 100\<rparr>) \<and>
   map (\<lambda>e. (created_at e, player_id (player e)))
     (k_items (join_logs (snd (JoinEntry linux_utc
          (snd (JoinEntry linux_utc default_ServerCache
             \<lparr>jd_Player = \<lparr>player_name = ''a'', player_id = 11\<rparr>, jd_Join = Some True,
              jd_Timestamp = Some 100\<rparr>))
          \<lparr>jd_Player = \<lparr>player_name = ''b'', player_id = 22\<rparr>, jd_Join = Some True,
           jd_Timestamp = Some 100\<rparr>))))
     = [(100, 11), (100, 22)] \<and>
   JoinEntry linux_utc default_ServerCache
     \<lparr>jd_Player = \<lparr>player_name = ''a'', player_id = 11\<rparr>, jd_Join = Some True,
      jd_Timestamp = Some 1000000000000\<rparr>
     = (Inl ValueError, default_ServerCache)"
proof -
  let ?A = "\<lparr>jd_Player = \<lparr>player_name = ''a'', player_id = 11\<rparr>, jd_Join = Some True,
              jd_Timestamp = Some 100\<rparr>"
  let ?B = "\<lparr>jd_Player = \<lparr>player_name = ''b'', player_id = 22\<rparr>, jd_Join = Some True,
              jd_Timestamp = Some 100\<rparr>"
  let ?C = "\<lparr>jd_Player = \<lparr>player_name = ''a'', player_id = 11\<rparr>, jd_Join = Some True,
              jd_Timestamp = Some 1000000000000\<rparr>"
  let ?ea = "\<lparr>created_at = 100, player = \<lparr>player_name = ''a'', player_id = 11\<rparr>,
              is_join = True\<rparr>"
  let ?eb = "\<lparr>created_at = 100, player = \<lparr>player_name = ''b'', player_id = 22\<rparr>,
              is_join = True\<rparr>"
  let ?sc1 = "snd (JoinEntry linux_utc default_ServerCache ?A)"
  have ca: "fromtimestamp linux_utc (get_default (jd_Timestamp ?A) 0) = Inr 100"
    and cb: "fromtimestamp linux_utc (get_default (jd_Timestamp ?B) 0) = Inr 100"
    and cc: "fromtimestamp linux_utc (get_default (jd_Timestamp ?C) 0) = Inl ValueError"
    by (simp_all add: linux_utc_examples)
  note ta = join_log_dedup[where localtime = linux_utc and data = ?A,
      THEN conjunct2, rule_format, OF ca, unfolded Let_def]
  note tb = join_log_dedup[where localtime = linux_utc and data = ?B,
      THEN conjunct2, rule_format, OF cb, unfolded Let_def]
  note tc = join_log_dedup[where localtime = linux_utc and data = ?C,
      THEN conjunct1, rule_format, OF cc]
  have e0: "k_items (join_logs default_ServerCache) = []"
    "k_max_size (join_logs default_ServerCache) = 150"
    by (simp_all add: default_ServerCache_def ServerCache_def KeylessCache_def)
  have s1: "?sc1 = default_ServerCache
      \<lparr>join_logs := snd (keyless_add ?ea (join_logs default_ServerCache))\<rparr>"
    using ta[of default_ServerCache, THEN conjunct2, THEN conjunct2, THEN conjunct1]
    by (simp add: e0 get_default_def)
  have e1: "k_items (join_logs ?sc1) = [?ea]" "k_max_size (join_logs ?sc1) = 150"
    by (simp_all add: s1 keyless_add_def e0)
  have s2: "snd (JoinEntry linux_utc ?sc1 ?A) = ?sc1"
    using ta[of ?sc1, THEN conjunct2, THEN conjunct1] by (simp add: e1)
  have s3: "snd (JoinEntry linux_utc ?sc1 ?B) =
      ?sc1\<lparr>join_logs := snd (keyless_add ?eb (join_logs ?sc1))\<rparr>"
    using tb[of ?sc1, THEN conjunct2, THEN conjunct2, THEN conjunct1]
    by (simp add: e1 get_default_def)
  have "k_items (join_logs (snd (JoinEntry linux_utc ?sc1 ?B))) = [?ea, ?eb]"
    by (simp add: s3 keyless_add_def e1)
  with s2 tc[of default_ServerCache] show ?thesis by simp
qed

text \<open>
  Across the repeated hour the two instants 1730611800 and 1730615400 have the same wall
  clock reading, so a second record of the same player is discarded.
\<close>

lemma join_dedup_across_fold:
  "fromtimestamp new_york_2024 1730611800 = fromtimestamp new_york_2024 1730615400 \<and>
   snd (JoinEntry new_york_2024
          (snd (JoinEntry new_york_2024 default_ServerCache
             \<lparr>jd_Player = \<lparr>player_name = ''a'', player_id = 11\<rparr>, jd_Join = Some True,
              jd_Timestamp = Some 1730611800\<rparr>))
          \<lparr>jd_Player = \<lparr>player_name = ''a'', player_id = 11\<rparr>, jd_Join = Some False,
           jd_Timestamp = Some 1730615400\<rparr>)
     = snd (JoinEntry new_york_2024 default_ServerCache
             \<lparr>jd_Player = \<lparr>player_name = ''a'', player_id = 11\<rparr>, jd_Join = Some True,
              jd_Timestamp = Some 1730611800\<rparr>)"
proof -
  let ?A = "\<lparr>jd_Player = \<lparr>player_name = ''a'', player_id = 11\<rparr>, jd_Join = Some True,
              jd_Timestamp = Some 1730611800\<rparr>"
  let ?B = "\<lparr>jd_Player = \<lparr>player_name = ''a'', player_id = 11\<rparr>, jd_Join = Some False,
              jd_Timestamp = Some 1730615400\<rparr>"
  let ?sc1 = "snd (JoinEntry new_york_2024 default_ServerCache ?A)"
  have ca: "fromtimestamp new_york_2024 (get_default (jd_Timestamp ?A) 0) = Inr 1730597400"
    and cb: "fromtimestamp new_york_2024 (get_default (jd_Timestamp ?B) 0) = Inr 1730597400"
    by (simp_all add: fromtimestamp_def new_york_2024_def get_default_def)
  have e0: "k_items (join_logs default_ServerCache) = []"
    "k_max_size (join_logs default_ServerCache) = 150"
    by (simp_all add: default_ServerCache_def ServerCache_def KeylessCache_def)
  have e1: "map (\<lambda>e. (created_at e, player_id (player e))) (k_items (join_logs ?sc1))
      = [(1730597400, 11)]"
    by (subst JoinEntry_snd[OF ca]) (simp add: e0 keyless_add_def)
  then obtain x where x: "k_items (join_logs ?sc1) = [x]" "created_at x = 1730597400"
    "player_id (player x) = 11"
    by auto
  have "snd (JoinEntry new_york_2024 ?sc1 ?B) = ?sc1"
    by (subst JoinEntry_snd[OF cb]) (simp add: x)
  then show ?thesis
    by (simp add: fromtimestamp_def new_york_2024_def)
qed

text \<open>
  C9. The predicate that \<^verbatim>\<open>JoinEntry\<close> passes compares the player ids only: a candidate
  whose \<^verbatim>\<open>created_at\<close> and player id equal those of a stored entry is discarded whatever
  its \<^verbatim>\<open>Join\<close> flag and whatever the stored entry's \<^verbatim>\<open>is_join\<close>, so a leave is dropped
  against a join of the same player in the same second.
\<close>

theorem join_dedup_ignores_is_join:
  assumes "e \<in> set (k_items (join_logs sc))"
    and "fromtimestamp localtime (get_default (jd_Timestamp data) 0) = Inr (created_at e)"
    and "player_id (player e) = player_id (jd_Player data)"
  shows "snd (JoinEntry localtime sc (data\<lparr>jd_Join := j\<rparr>)) = sc \<and>
         fst (JoinEntry localtime sc (data\<lparr>jd_Join := j\<rparr>)) =
           Inr \<lparr>created_at = created_at e, player = jd_Player data,
                is_join = get_default j False\<rparr> \<and>
         join_dedupe (self\<lparr>is_join := a\<rparr>) (e\<lparr>is_join := b\<rparr>) = join_dedupe self e"
proof (intro conjI)
  let ?d = "data\<lparr>jd_Join := j\<rparr>"
  have conv: "fromtimestamp localtime (get_default (jd_Timestamp ?d) 0) = Inr (created_at e)"
    using assms(2) by simp
  have "\<exists>x \<in> set (k_items (join_logs sc)).
      created_at x = created_at e \<and> player_id (player x) = player_id (jd_Player ?d)"
    using assms by (intro bexI[of _ e]) simp_all
  then show "snd (JoinEntry localtime sc ?d) = sc"
    using JoinEntry_snd[OF conv, of sc] by (simp only: if_True)
  show "fst (JoinEntry localtime sc ?d) =
      Inr \<lparr>created_at = created_at e, player = jd_Player data,
           is_join = get_default j False\<rparr>"
    using JoinEntry_fst[OF conv, of sc] by simp
  show "join_dedupe (self\<lparr>is_join := a\<rparr>) (e\<lparr>is_join := b\<rparr>) = join_dedupe self e"
    by (simp add: join_dedupe_def)
qed

theorem join_dedup_ignores_is_join_witness:
  "snd (JoinEntry linux_utc
          (snd (JoinEntry linux_utc default_ServerCache
             \<lparr>jd_Player = \<lparr>player_name = ''a'', player_id = 11\<rparr>, jd_Join = Some True,
              jd_Timestamp = Some 100\<rparr>))
          \<lparr>jd_Player = \<lparr>player_name = ''a'', player_id = 11\<rparr>, jd_Join = Some False,
           jd_Timestamp = Some 100\<rparr>)
     = snd (JoinEntry linux_utc default_ServerCache
             \<lparr>jd_Player = \<lparr>player_name = ''a'', player_id = 11\<rparr>, jd_Join = Some True,
              jd_Timestamp = Some 100\<rparr>) \<and>
   map is_join (k_items (join_logs (snd (JoinEntry linux_utc default_ServerCache
             \<lparr>jd_Player = \<lparr>player_name = ''a'', player_id = 11\<rparr>, jd_Join = Some True,
              jd_Timestamp = Some 100\<rparr>)))) = [True]"
proof -
  let ?A = "\<lparr>jd_Player = \<lparr>player_name = ''a'', player_id = 11\<rparr>, jd_Join = Some True,
              jd_Timestamp = Some 100\<rparr>"
  let ?ea = "\<lparr>created_at = 100, player = \<lparr>player_name = ''a'', player_id = 11\<rparr>,
              is_join = True\<rparr>"
  let ?sc1 = "snd (JoinEntry linux_utc default_ServerCache ?A)"
  have ca: "fromtimestamp linux_utc (get_default (jd_Timestamp ?A) 0) = Inr 100"
    by (simp add: linux_utc_examples)
  have e0: "k_items (join_logs default_ServerCache) = []"
    "k_max_size (join_logs default_ServerCache) = 150"
    by (simp_all add: default_ServerCache_def ServerCache_def KeylessCache_def)
  have e1: "k_items (join_logs ?sc1) = [?ea]"
    by (subst JoinEntry_snd[OF ca]) (simp add: e0 keyless_add_def get_default_def)
  have "snd (JoinEntry linux_utc ?sc1 (?A\<lparr>jd_Join := Some False\<rparr>)) = ?sc1"
    using join_dedup_ignores_is_join[of ?ea ?sc1 linux_utc ?A "Some False"]
    by (simp add: e1 linux_utc_examples)
  then show ?thesis by (simp add: e1)
qed

text \<open>
  C4. On a \<^verbatim>\<open>ServerCache\<close> the constructors \<^verbatim>\<open>KillEntry\<close> and \<^verbatim>\<open>CommandEntry\<close> never
  return an entry: reading \<^verbatim>\<open>kill_logs\<close> (\<^verbatim>\<open>command_logs\<close>) raises \<^verbatim>\<open>AttributeError\<close>
  before \<^verbatim>\<open>LogEntry.__init__\<close> is entered, for every record and every cache state.
\<close>

theorem kill_and_command_entry_raise:
  "KillEntry localtime sc kd = Inl AttributeError \<and>
   CommandEntry localtime sc cd = Inl AttributeError"
  by (simp add: KillEntry_def CommandEntry_def kill_logs_def command_logs_def)

lemma ModCallEntry_snd: "snd (ModCallEntry localtime sc data) = sc"
  by (simp add: ModCallEntry_def)

lemma ModCallEntry_fst:
  "fst (ModCallEntry localtime sc data) =
     (case fromtimestamp localtime (get_default (md_Timestamp data) 0) of
        Inl e \<Rightarrow> Inl e
      | Inr t \<Rightarrow>
          Inr \<lparr>created_at = t, caller = md_Caller data, responder = md_Moderator data,
               is_acknowledged = (md_Moderator data \<noteq> None)\<rparr>)"
  by (simp add: ModCallEntry_def LogEntry_init_def split: sum.splits)

lemma mod_call_entries_snd: "snd (mod_call_entries localtime sc ds) = sc"
proof (induction ds)
  case Nil
  then show ?case by simp
next
  case (Cons d ds)
  obtain r1 where m: "ModCallEntry localtime sc d = (r1, sc)"
    using ModCallEntry_snd[of localtime sc d] by (cases "ModCallEntry localtime sc d") simp
  obtain r2 where r: "mod_call_entries localtime sc ds = (r2, sc)"
    using Cons.IH by (cases "mod_call_entries localtime sc ds") simp
  show ?case
    by (simp add: m r split: sum.splits)
qed

lemma mod_call_entries_all:
  assumes "\<forall>d \<in> set ds. \<exists>t. fromtimestamp localtime (get_default (md_Timestamp d) 0) = Inr t"
  shows "\<exists>es. fst (mod_call_entries localtime sc ds) = Inr es \<and> length es = length ds \<and>
      (\<forall>i < length ds. fst (ModCallEntry localtime sc (ds ! i)) = Inr (es ! i))"
  using assms
proof (induction ds)
  case Nil
  then show ?case by simp
next
  case (Cons d ds)
  from Cons.prems obtain t where
    t: "fromtimestamp localtime (get_default (md_Timestamp d) 0) = Inr t" by auto
  define entry where "entry = \<lparr>created_at = t, caller = md_Caller d,
      responder = md_Moderator d, is_acknowledged = (md_Moderator d \<noteq> None)\<rparr>"
  have m: "ModCallEntry localtime sc d = (Inr entry, sc)"
    using ModCallEntry_fst[of localtime sc d] ModCallEntry_snd[of localtime sc d] t
    by (simp add: entry_def prod_eq_iff)
  from Cons obtain es where es: "fst (mod_call_entries localtime sc ds) = Inr es"
    "length es = length ds"
    "\<forall>i < length ds. fst (ModCallEntry localtime sc (ds ! i)) = Inr (es ! i)"
    by auto
  have r: "mod_call_entries localtime sc ds = (Inr es, sc)"
    using es(1) mod_call_entries_snd[of localtime sc ds] by (simp add: prod_eq_iff)
  have "fst (mod_call_entries localtime sc (d # ds)) = Inr (entry # es)"
    by (simp add: m r)
  moreover have "\<forall>i < length (d # ds).
      fst (ModCallEntry localtime sc ((d # ds) ! i)) = Inr ((entry # es) ! i)"
    using es(3) m by (auto simp: nth_Cons split: nat.splits)
  ultimately show ?case
    using es(2) by (intro exI[of _ "entry # es"]) simp
qed

text \<open>
  C5. \<^verbatim>\<open>ModCallEntry\<close> passes no cache and no predicate, so \<^verbatim>\<open>LogEntry.__init__\<close> only
  sets \<^verbatim>\<open>created_at\<close>: the server cache is returned as it was in every case, each
  record whose timestamp the platform converts becomes an entry, and the comprehension of
  \<^verbatim>\<open>get_mod_calls\<close> yields one entry per record, so two records with the same timestamp
  and the same caller yield two entries. A record whose timestamp the platform refuses
  raises that exception and no entry is constructed for it.
\<close>

theorem mod_call_never_deduplicated:
  "snd (ModCallEntry localtime sc d) = sc \<and>
   snd (mod_call_entries localtime sc ds) = sc \<and>
   LogEntry_init localtime self0 (md_Timestamp d) None None =
     (case fromtimestamp localtime (get_default (md_Timestamp d) 0) of
        Inl e \<Rightarrow> Inl e | Inr t \<Rightarrow> Inr (self0\<lparr>created_at := t\<rparr>), None) \<and>
   (\<forall>e. fromtimestamp localtime (get_default (md_Timestamp d) 0) = Inl e \<longrightarrow>
      fst (ModCallEntry localtime sc d) = Inl e) \<and>
   (\<forall>t. fromtimestamp localtime (get_default (md_Timestamp d) 0) = Inr t \<longrightarrow>
      fst (ModCallEntry localtime sc d) =
        Inr \<lparr>created_at = t, caller = md_Caller d, responder = md_Moderator d,
             is_acknowledged = (md_Moderator d \<noteq> None)\<rparr> \<and>
      fst (mod_call_entries localtime sc [d, d]) =
        Inr [\<lparr>created_at = t, caller = md_Caller d, responder = md_Moderator d,
              is_acknowledged = (md_Moderator d \<noteq> None)\<rparr>,
             \<lparr>created_at = t, caller = md_Caller d, responder = md_Moderator d,
              is_acknowledged = (md_Moderator d \<noteq> None)\<rparr>]) \<and>
   ((\<forall>d \<in> set ds. \<exists>t. fromtimestamp localtime (get_default (md_Timestamp d) 0) = Inr t) \<longrightarrow>
      (\<exists>es. fst (mod_call_entries localtime sc ds) = Inr es \<and> length es = length ds \<and>
         (\<forall>i < length ds. fst (ModCallEntry localtime sc (ds ! i)) = Inr (es ! i))))"
proof (intro conjI allI impI)
  show "snd (ModCallEntry localtime sc d) = sc"
    by (rule ModCallEntry_snd)
  show "snd (mod_call_entries localtime sc ds) = sc"
    by (rule mod_call_entries_snd)
  show "LogEntry_init localtime self0 (md_Timestamp d) None None =
     (case fromtimestamp localtime (get_default (md_Timestamp d) 0) of
        Inl e \<Rightarrow> Inl e | Inr t \<Rightarrow> Inr (self0\<lparr>created_at := t\<rparr>), None)"
    by (simp add: LogEntry_init_def split: sum.splits)
next
  fix e
  assume "fromtimestamp localtime (get_default (md_Timestamp d) 0) = Inl e"
  then show "fst (ModCallEntry localtime sc d) = Inl e"
    by (simp add: ModCallEntry_fst)
next
  fix t
  assume t: "fromtimestamp localtime (get_default (md_Timestamp d) 0) = Inr t"
  let ?entry = "\<lparr>created_at = t, caller = md_Caller d, responder = md_Moderator d,
             is_acknowledged = (md_Moderator d \<noteq> None)\<rparr>"
  show f: "fst (ModCallEntry localtime sc d) = Inr ?entry"
    using t by (simp add: ModCallEntry_fst)
  have m: "ModCallEntry localtime sc d = (Inr ?entry, sc)"
    using f ModCallEntry_snd[of localtime sc d] by (simp add: prod_eq_iff)
  show "fst (mod_call_entries localtime sc [d, d]) = Inr [?entry, ?entry]"
    by (simp add: m)
next
  assume "\<forall>d \<in> set ds. \<exists>t. fromtimestamp localtime (get_default (md_Timestamp d) 0) = Inr t"
  then show "\<exists>es. fst (mod_call_entries localtime sc ds) = Inr es \<and> length es = length ds \<and>
         (\<forall>i < length ds. fst (ModCallEntry localtime sc (ds ! i)) = Inr (es ! i))"
    by (rule mod_call_entries_all)
qed

theorem kill_and_command_entry_raise_witness:
  "KillEntry linux_utc default_ServerCache
     \<lparr>kd_Killed = \<lparr>player_name = ''a'', player_id = 11\<rparr>,
      kd_Killer = \<lparr>player_name = ''b'', player_id = 22\<rparr>, kd_Timestamp = Some 100\<rparr>
     = Inl AttributeError \<and>
   CommandEntry linux_utc default_ServerCache
     \<lparr>cd_Player = \<lparr>player_name = ''a'', player_id = 11\<rparr>, cd_Command = '':h hi'',
      cd_Timestamp = Some 100\<rparr>
     = Inl AttributeError"
  using kill_and_command_entry_raise by blast

theorem mod_call_never_deduplicated_witness:
  "map_sum id (map (\<lambda>e. (created_at e, player_id (caller e), is_acknowledged e)))
     (fst (mod_call_entries linux_utc default_ServerCache
        [\<lparr>md_Caller = \<lparr>player_name = ''a'', player_id = 11\<rparr>, md_Moderator = None,
          md_Timestamp = Some 100\<rparr>,
         \<lparr>md_Caller = \<lparr>player_name = ''a'', player_id = 11\<rparr>, md_Moderator = None,
          md_Timestamp = Some 100\<rparr>]))
     = Inr [(100, 11, False), (100, 11, False)] \<and>
   snd (mod_call_entries linux_utc default_ServerCache
        [\<lparr>md_Caller = \<lparr>player_name = ''a'', player_id = 11\<rparr>, md_Moderator = None,
          md_Timestamp = Some 100\<rparr>,
         \<lparr>md_Caller = \<lparr>player_name = ''a'', player_id = 11\<rparr>, md_Moderator = None,
          md_Timestamp = Some 100\<rparr>])
     = default_ServerCache \<and>
   fst (ModCallEntry linux_utc default_ServerCache
        \<lparr>md_Caller = \<lparr>player_name = ''a'', player_id = 11\<rparr>, md_Moderator = None,
         md_Timestamp = Some 1000000000000\<rparr>) = Inl ValueError"
proof -
  let ?d = "\<lparr>md_Caller = \<lparr>player_name = ''a'', player_id = 11\<rparr>, md_Moderator = None,
          md_Timestamp = Some 100\<rparr>"
  let ?x = "\<lparr>md_Caller = \<lparr>player_name = ''a'', player_id = 11\<rparr>, md_Moderator = None,
          md_Timestamp = Some 1000000000000\<rparr>"
  have cd: "fromtimestamp linux_utc (get_default (md_Timestamp ?d) 0) = Inr 100"
    and cx: "fromtimestamp linux_utc (get_default (md_Timestamp ?x) 0) = Inl ValueError"
    by (simp_all add: linux_utc_examples)
  note t = mod_call_never_deduplicated[where localtime = linux_utc
      and sc = default_ServerCache]
  have two: "fst (mod_call_entries linux_utc default_ServerCache [?d, ?d]) =
      Inr [\<lparr>created_at = 100, caller = md_Caller ?d, responder = md_Moderator ?d,
            is_acknowledged = (md_Moderator ?d \<noteq> None)\<rparr>,
           \<lparr>created_at = 100, caller = md_Caller ?d, responder = md_Moderator ?d,
            is_acknowledged = (md_Moderator ?d \<noteq> None)\<rparr>]"
    using t[where d = ?d] cd by blast
  have same: "snd (mod_call_entries linux_utc default_ServerCache [?d, ?d]) =
      default_ServerCache"
    using t[where ds = "[?d, ?d]"] by blast
  have bad: "fst (ModCallEntry linux_utc default_ServerCache ?x) = Inl ValueError"
    using t[where d = ?x] cx by blast
  from two same bad show ?thesis by simp
qed

section \<open>The keyed cache: proofs\<close>

lemma cache_set_capacity: "capacity (snd (cache_set now k v c)) = capacity c"
  by (simp add: cache_set_def Let_def)

lemma cache_set_ttl: "ttl_seconds (snd (cache_set now k v c)) = ttl_seconds c"
  by (simp add: cache_set_def Let_def)

lemma cache_set_fst: "fst (cache_set now k v c) = v"
  by (simp add: cache_set_def Let_def)

lemma filter_key_shorter:
  "k \<in> set (map entry_key es) \<Longrightarrow> length (filter (\<lambda>e. entry_key e \<noteq> k) es) < length es"
  by (induction es) (auto simp: less_Suc_eq_le)

lemma cache_set_existing:
  assumes "k \<in> set (map entry_key (entries c))"
  shows "entries (snd (cache_set now k v c)) =
      filter (\<lambda>e. entry_key e \<noteq> k) (entries c)
        @ [\<lparr>entry_key = k, entry_value = v, inserted_at = now\<rparr>]"
  using assms by (simp add: cache_set_def Let_def)

lemma cache_set_overflow:
  assumes "k \<notin> set (map entry_key (entries c))" "length (entries c) = capacity c"
    "entries c = oldest # rest"
  shows "entries (snd (cache_set now k v c)) =
      rest @ [\<lparr>entry_key = k, entry_value = v, inserted_at = now\<rparr>]"
  using assms by (simp add: cache_set_def Let_def)

lemma cache_set_room:
  assumes "k \<notin> set (map entry_key (entries c))" "length (entries c) \<noteq> capacity c"
  shows "entries (snd (cache_set now k v c)) =
      entries c @ [\<lparr>entry_key = k, entry_value = v, inserted_at = now\<rparr>]"
  using assms by (simp add: cache_set_def Let_def)

lemma cache_set_bounded:
  assumes "0 < capacity c" "length (entries c) \<le> capacity c"
  shows "length (entries (snd (cache_set now k v c))) \<le> capacity c"
proof (cases "k \<in> set (map entry_key (entries c))")
  case True
  then show ?thesis
    using assms(2) filter_key_shorter[OF True]
    by (simp add: cache_set_existing[OF True])
next
  case False
  show ?thesis
  proof (cases "length (entries c) = capacity c")
    case True
    with assms(1) obtain oldest rest where "entries c = oldest # rest"
      by (cases "entries c") auto
    with True show ?thesis
      by (simp add: cache_set_overflow[OF False True])
  next
    case neq: False
    with assms(2) show ?thesis
      by (simp add: cache_set_room[OF False neq])
  qed
qed

lemma cache_set_distinct:
  assumes "distinct (map entry_key (entries c))"
  shows "distinct (map entry_key (entries (snd (cache_set now k v c))))"
proof (cases "k \<in> set (map entry_key (entries c))")
  case True
  then show ?thesis
    using assms by (auto simp: cache_set_existing[OF True] distinct_map_filter)
next
  case False
  then show ?thesis
    using assms by (cases "entries c") (auto simp: cache_set_def Let_def)
qed

lemma set_all_invariant:
  assumes "0 < capacity c" "length (entries c) \<le> capacity c"
    "distinct (map entry_key (entries c))"
  shows "capacity (set_all calls c) = capacity c \<and>
         ttl_seconds (set_all calls c) = ttl_seconds c \<and>
         length (entries (set_all calls c)) \<le> capacity c \<and>
         distinct (map entry_key (entries (set_all calls c)))"
  using assms
proof (induction calls arbitrary: c)
  case Nil
  then show ?case by simp
next
  case (Cons call calls)
  obtain now k v where call: "call = (now, k, v)" by (cases call) auto
  let ?c = "snd (cache_set now k v c)"
  have "0 < capacity ?c" "length (entries ?c) \<le> capacity ?c"
    "distinct (map entry_key (entries ?c))"
    using Cons.prems by (simp_all add: cache_set_capacity cache_set_bounded cache_set_distinct)
  from Cons.IH[OF this] show ?case
    by (simp add: call cache_set_capacity cache_set_ttl)
qed

lemma cache_get_absent:
  "k \<notin> set (map entry_key (entries c)) \<Longrightarrow> cache_get now k c = None"
proof -
  assume "k \<notin> set (map entry_key (entries c))"
  then have "find (\<lambda>e. entry_key e = k) (entries c) = None"
    by (auto simp: find_None_iff)
  then show ?thesis by (simp add: cache_get_def)
qed

text \<open>
  C6, as amended. With a capacity \<open>N\<close> of at least 1, a cache reached from the empty one
  by any run of \<^verbatim>\<open>set\<close> calls holds at most \<open>N\<close> entries, under distinct keys. A
  \<^verbatim>\<open>set\<close> of a new key on a full cache drops the entry at the head of the insertion
  order, keeps the others in order and appends the new one, and the dropped key is then
  absent; a \<^verbatim>\<open>set\<close> of a stored key moves that key to the end of the order. On a
  capacity-2, TTL-0 cache the three calls of the scenario leave (2, b) and (3, c).
\<close>

theorem bounded_capacity_fifo:
  assumes "0 < N"
  shows
    "(let c = set_all calls (Cache N ttl);
          new = \<lparr>entry_key = k, entry_value = v, inserted_at = now\<rparr>
      in capacity c = N \<and> length (entries c) \<le> N \<and>
         distinct (map entry_key (entries c)) \<and>
         (k \<notin> set (map entry_key (entries c)) \<and> length (entries c) = N \<longrightarrow>
            (\<exists>oldest rest. entries c = oldest # rest \<and>
               entries (snd (cache_set now k v c)) = rest @ [new] \<and>
               cache_get now' (entry_key oldest) (snd (cache_set now k v c)) = None)) \<and>
         (k \<notin> set (map entry_key (entries c)) \<and> length (entries c) < N \<longrightarrow>
            entries (snd (cache_set now k v c)) = entries c @ [new]) \<and>
         (k \<in> set (map entry_key (entries c)) \<longrightarrow>
            entries (snd (cache_set now k v c)) =
              filter (\<lambda>e. entry_key e \<noteq> k) (entries c) @ [new])) \<and>
     cache_items t
       (set_all [(t1, 1 :: nat, ''a''), (t2, 2, ''b''), (t3, 3, ''c'')] (Cache 2 0))
       = [(2, ''b''), (3, ''c'')]"
proof -
  let ?c = "set_all calls (Cache N ttl)"
  let ?new = "\<lparr>entry_key = k, entry_value = v, inserted_at = now\<rparr>"
  have inv: "capacity ?c = N" "length (entries ?c) \<le> N" "distinct (map entry_key (entries ?c))"
    using set_all_invariant[of "Cache N ttl" calls] assms by (simp_all add: Cache_def)
  have over: "\<exists>oldest rest. entries ?c = oldest # rest \<and>
               entries (snd (cache_set now k v ?c)) = rest @ [?new] \<and>
               cache_get now' (entry_key oldest) (snd (cache_set now k v ?c)) = None"
    if new: "k \<notin> set (map entry_key (entries ?c))" and full: "length (entries ?c) = N"
  proof -
    from full assms obtain oldest rest where es: "entries ?c = oldest # rest"
      by (cases "entries ?c") auto
    have full': "length (entries ?c) = capacity ?c" using full inv(1) by simp
    have after: "entries (snd (cache_set now k v ?c)) = rest @ [?new]"
      by (rule cache_set_overflow[OF new full' es])
    have nk: "entry_key oldest \<notin> set (map entry_key (rest @ [?new]))"
      using inv(3) new unfolding es by auto
    have "entry_key oldest
        \<notin> set (map entry_key (entries (snd (cache_set now k v ?c))))"
      unfolding after by (rule nk)
    then have "cache_get now' (entry_key oldest) (snd (cache_set now k v ?c)) = None"
      by (rule cache_get_absent)
    with es after show ?thesis by blast
  qed
  have room: "entries (snd (cache_set now k v ?c)) = entries ?c @ [?new]"
    if "k \<notin> set (map entry_key (entries ?c))" "length (entries ?c) < N"
    using that inv(1) by (intro cache_set_room) simp_all
  have again: "entries (snd (cache_set now k v ?c)) =
      filter (\<lambda>e. entry_key e \<noteq> k) (entries ?c) @ [?new]"
    if "k \<in> set (map entry_key (entries ?c))"
    using that by (rule cache_set_existing)
  have scenario: "cache_items t
       (set_all [(t1, 1 :: nat, ''a''), (t2, 2, ''b''), (t3, 3, ''c'')] (Cache 2 0))
       = [(2, ''b''), (3, ''c'')]"
    by (simp add: cache_items_def cache_set_def Cache_def live_def Let_def)
  from inv over room again scenario show ?thesis
    unfolding Let_def by blast
qed

theorem bounded_capacity_fifo_witness:
  "length (entries (set_all [(0, 1 :: nat, ''a''), (1, 2, ''b''), (2, 1, ''d''), (3, 3, ''c'')]
      (Cache 2 0))) \<le> 2 \<and>
   cache_items 4
     (set_all [(0, 1 :: nat, ''a''), (1, 2, ''b''), (2, 1, ''d''), (3, 3, ''c'')] (Cache 2 0))
     = [(1, ''d''), (3, ''c'')]"
proof -
  have "length (entries (set_all
      [(0, 1 :: nat, ''a''), (1, 2, ''b''), (2, 1, ''d''), (3, 3, ''c'')] (Cache 2 0))) \<le> 2"
    using bounded_capacity_fifo[of 2
        "[(0, 1 :: nat, ''a''), (1, 2, ''b''), (2, 1, ''d''), (3, 3, ''c'')]" 0]
    unfolding Let_def by simp
  moreover have "cache_items 4
     (set_all [(0, 1 :: nat, ''a''), (1, 2, ''b''), (2, 1, ''d''), (3, 3, ''c'')] (Cache 2 0))
     = [(1, ''d''), (3, ''c'')]"
    by (simp add: cache_items_def cache_set_def Cache_def live_def Let_def)
  ultimately show ?thesis by blast
qed

text \<open>
  With capacity 0 the rule of \<^verbatim>\<open>set\<close> finds the length equal to the capacity, has no
  entry to evict and adds the new one: the cache then holds one entry.
\<close>

theorem bounded_capacity_zero_counterexample:
  "\<not> length (entries (set_all [(0, 1 :: nat, ''a'')] (Cache 0 0)))
       \<le> capacity (set_all [(0, 1 :: nat, ''a'')] (Cache 0 0 :: (nat, string) cache))"
  by (simp add: cache_set_def Cache_def Let_def)

section \<open>The decorator \<^verbatim>\<open>_ephemeral\<close>: proofs\<close>

text \<open>The rounding is monotone, odd, and keeps a value within its binade.\<close>

lemma rne_of_int: "rne (of_int n) = n"
  by (simp add: rne_def)

lemma rne_between: "\<lfloor>x\<rfloor> \<le> rne x \<and> rne x \<le> \<lfloor>x\<rfloor> + 1"
  by (simp add: rne_def Let_def)

lemma rne_mono:
  assumes "x \<le> y"
  shows "rne x \<le> rne y"
proof (cases "\<lfloor>x\<rfloor> < \<lfloor>y\<rfloor>")
  case True
  then show ?thesis
    using rne_between[of x] rne_between[of y] by linarith
next
  case False
  then have eq: "\<lfloor>x\<rfloor> = \<lfloor>y\<rfloor>"
    using floor_mono[OF assms] by linarith
  then have "x - of_int \<lfloor>x\<rfloor> \<le> y - of_int \<lfloor>y\<rfloor>"
    using assms by simp
  then show ?thesis
    unfolding rne_def Let_def eq by auto
qed

lemma rne_lower: "of_int n \<le> x \<Longrightarrow> n \<le> rne x"
  using rne_mono[of "of_int n" x] by (simp add: rne_of_int)

lemma rne_upper: "x \<le> of_int n \<Longrightarrow> rne x \<le> n"
  using rne_mono[of x "of_int n"] by (simp add: rne_of_int)

lemma exponent_bounds:
  assumes "x \<noteq> 0"
  shows "power_int 2 (exponent x) \<le> \<bar>x\<bar> \<and> \<bar>x\<bar> < power_int 2 (exponent x + 1)"
proof -
  have p: "2 powr real_of_int k = power_int (2::real) k" for k
    by (simp add: powr_real_of_int')
  have "2 powr real_of_int (exponent x) \<le> \<bar>x\<bar> \<and> \<bar>x\<bar> < 2 powr real_of_int (exponent x + 1)"
    using floor_log_eq_powr_iff[of "\<bar>x\<bar>" 2 "exponent x"] assms
    by (simp add: exponent_def)
  then show ?thesis
    by (simp only: p)
qed

lemma exponent_eqI:
  assumes "power_int 2 e \<le> \<bar>x\<bar>" "\<bar>x\<bar> < power_int 2 (e + 1)"
  shows "exponent x = e"
proof -
  have p: "2 powr real_of_int k = power_int (2::real) k" for k
    by (simp add: powr_real_of_int')
  have "0 < \<bar>x\<bar>"
    using assms(1) zero_less_power_int[of "2::real" e] by linarith
  moreover have "2 powr real_of_int e \<le> \<bar>x\<bar> \<and> \<bar>x\<bar> < 2 powr real_of_int (e + 1)"
    using assms by (simp only: p)
  ultimately show ?thesis
    using floor_log_eq_powr_iff[of "\<bar>x\<bar>" 2 e] by (simp add: exponent_def)
qed

lemma exponent_mono:
  assumes "x \<noteq> 0" "\<bar>x\<bar> \<le> \<bar>y\<bar>"
  shows "exponent x \<le> exponent y"
proof -
  have "log 2 \<bar>x\<bar> \<le> log 2 \<bar>y\<bar>"
    using assms by simp
  then show ?thesis
    unfolding exponent_def by (rule floor_mono)
qed

lemma ulp_pos: "0 < ulp x"
  by (simp add: ulp_def)

lemma power_int_over_ulp:
  "power_int 2 (exponent x) / ulp x = 2 ^ 52"
  "power_int 2 (exponent x + 1) / ulp x = 2 ^ 53"
proof -
  have e0: "exponent x = (exponent x - 52) + 52" and e1: "exponent x + 1 = (exponent x - 52) + 53"
    by simp_all
  have "power_int (2::real) ((exponent x - 52) + 52) = power_int 2 (exponent x - 52) * 2 ^ 52"
    by (subst power_int_add) simp_all
  then have "power_int (2::real) (exponent x) = power_int 2 (exponent x - 52) * 2 ^ 52"
    by (simp only: e0[symmetric])
  then show "power_int 2 (exponent x) / ulp x = 2 ^ 52"
    by (simp add: ulp_def)
  have "power_int (2::real) ((exponent x - 52) + 53) = power_int 2 (exponent x - 52) * 2 ^ 53"
    by (subst power_int_add) simp_all
  then have s: "power_int (2::real) (exponent x + 1) = power_int 2 (exponent x - 52) * 2 ^ 53"
    by (simp only: e1[symmetric])
  have nz: "power_int (2::real) (exponent x - 52) \<noteq> 0"
    using zero_less_power_int[of "2::real" "exponent x - 52"] by simp
  show "power_int 2 (exponent x + 1) / ulp x = 2 ^ 53"
    unfolding ulp_def s using nz by (rule nonzero_mult_div_cancel_left)
qed

lemma round_double_pos_bounds:
  assumes "0 < x"
  shows "power_int 2 (exponent x) \<le> round_double x \<and>
         round_double x \<le> power_int 2 (exponent x + 1)"
proof -
  have b: "power_int 2 (exponent x) \<le> x" "x \<le> power_int 2 (exponent x + 1)"
    using exponent_bounds[of x] assms by simp_all
  have "power_int 2 (exponent x) / ulp x \<le> x / ulp x"
    "x / ulp x \<le> power_int 2 (exponent x + 1) / ulp x"
    using b ulp_pos[of x] by (simp_all add: divide_right_mono)
  then have "of_int (2 ^ 52) \<le> x / ulp x" "x / ulp x \<le> of_int (2 ^ 53)"
    by (simp_all add: power_int_over_ulp)
  then have "2 ^ 52 \<le> rne (x / ulp x)" "rne (x / ulp x) \<le> 2 ^ 53"
    by (auto intro: rne_lower rne_upper)
  then have "(2 ^ 52 :: real) \<le> of_int (rne (x / ulp x))"
    "of_int (rne (x / ulp x)) \<le> (2 ^ 53 :: real)"
    by (metis of_int_le_iff of_int_numeral of_int_power)+
  then have "2 ^ 52 * ulp x \<le> of_int (rne (x / ulp x)) * ulp x"
    "of_int (rne (x / ulp x)) * ulp x \<le> 2 ^ 53 * ulp x"
    using ulp_pos[of x] by (simp_all add: mult_right_mono)
  moreover have "2 ^ 52 * ulp x = power_int 2 (exponent x)"
    "2 ^ 53 * ulp x = power_int 2 (exponent x + 1)"
    using power_int_over_ulp[of x] ulp_pos[of x] by (simp_all add: field_simps)
  ultimately show ?thesis
    using assms by (simp add: round_double_def)
qed

lemma rne_minus: "rne (- x) = - rne x"
proof (cases "x = of_int \<lfloor>x\<rfloor>")
  case True
  then obtain n where "x = of_int n" by blast
  then show ?thesis
    by (simp add: rne_of_int flip: of_int_minus)
next
  case False
  then have f: "\<lfloor>- x\<rfloor> = - \<lfloor>x\<rfloor> - 1"
    by (metis ceiling_def ceiling_altdef diff_minus_eq_add minus_diff_eq
        uminus_add_conv_diff add.inverse_inverse)
  have fr: "0 < x - of_int \<lfloor>x\<rfloor>" "x - of_int \<lfloor>x\<rfloor> < 1"
    using False by linarith+
  show ?thesis
    unfolding rne_def Let_def f using fr by (auto simp: algebra_simps)
qed

lemma exponent_minus: "exponent (- x) = exponent x"
  by (simp add: exponent_def)

lemma round_double_minus: "round_double (- x) = - round_double x"
  by (simp add: round_double_def ulp_def exponent_minus rne_minus)

lemma round_double_neg_bounds:
  assumes "x < 0"
  shows "- power_int 2 (exponent x + 1) \<le> round_double x \<and>
         round_double x \<le> - power_int 2 (exponent x)"
  using round_double_pos_bounds[of "- x"] assms
  by (simp add: round_double_minus exponent_minus)

lemma round_double_mono_pos:
  assumes "0 < x" "x \<le> y"
  shows "round_double x \<le> round_double y"
proof (cases "exponent x = exponent y")
  case True
  then have u: "ulp x = ulp y" by (simp add: ulp_def)
  have "x / ulp y \<le> y / ulp y"
    using assms(2) ulp_pos[of y] by (simp add: divide_right_mono)
  then have "rne (x / ulp y) \<le> rne (y / ulp y)" by (rule rne_mono)
  then have "of_int (rne (x / ulp y)) * ulp y \<le> of_int (rne (y / ulp y)) * ulp y"
    using ulp_pos[of y] by (simp add: mult_right_mono)
  then show ?thesis
    using assms by (simp add: round_double_def u)
next
  case False
  have "exponent x \<le> exponent y"
    using assms by (intro exponent_mono) simp_all
  with False have "exponent x + 1 \<le> exponent y" by simp
  then have "power_int (2::real) (exponent x + 1) \<le> power_int 2 (exponent y)"
    by (intro power_int_increasing) simp_all
  then show ?thesis
    using round_double_pos_bounds[of x] round_double_pos_bounds[of y] assms by linarith
qed

lemma round_double_mono:
  assumes "x \<le> y"
  shows "round_double x \<le> round_double y"
proof -
  consider "0 < x" | "y < 0" | "x \<le> 0" "0 \<le> y" by linarith
  then show ?thesis
  proof cases
    case 1
    then show ?thesis using assms by (rule round_double_mono_pos)
  next
    case 2
    then have "round_double (- y) \<le> round_double (- x)"
      using assms by (intro round_double_mono_pos) simp_all
    then show ?thesis by (simp add: round_double_minus)
  next
    case 3
    have "round_double x \<le> 0"
    proof (cases "x = 0")
      case True
      then show ?thesis by (simp add: round_double_def)
    next
      case False
      with 3 have "x < 0" by simp
      from round_double_neg_bounds[OF this] zero_less_power_int[of "2::real" "exponent x"]
      show ?thesis by linarith
    qed
    moreover have "0 \<le> round_double y"
    proof (cases "y = 0")
      case True
      then show ?thesis by (simp add: round_double_def)
    next
      case False
      with 3 have "0 < y" by simp
      from round_double_pos_bounds[OF this] zero_less_power_int[of "2::real" "exponent y"]
      show ?thesis by linarith
    qed
    ultimately show ?thesis by linarith
  qed
qed

lemma round_double_eqI:
  assumes "power_int 2 e \<le> \<bar>x\<bar>" "\<bar>x\<bar> < power_int 2 (e + 1)"
  shows "round_double x = of_int (rne (x / power_int 2 (e - 52))) * power_int 2 (e - 52)"
proof -
  have "exponent x = e" using assms by (rule exponent_eqI)
  moreover have "0 < \<bar>x\<bar>"
    using assms(1) zero_less_power_int[of "2::real" e] by linarith
  then have "x \<noteq> 0" by simp
  ultimately show ?thesis
    by (simp add: round_double_def ulp_def)
qed

lemma fsub_mono: "a \<le> a' \<Longrightarrow> fsub a b \<le> fsub a' b"
  unfolding fsub_def by (rule round_double_mono) simp

lemma fsub_examples:
  "fsub 13 11 = 2" "fsub 16 11 = 5"
  "fsub (2871044762448691 / 562949953421312) (3602879701896397 / 36028797018963968) = 5"
proof -
  have "round_double 2 = 2"
    by (subst round_double_eqI[of 1]) (simp_all add: rne_def)
  then show "fsub 13 11 = 2" by (simp add: fsub_def)
  have "round_double 5 = 5"
    by (subst round_double_eqI[of 2]) (simp_all add: rne_def)
  then show "fsub 16 11 = 5" by (simp add: fsub_def)
  show "fsub (2871044762448691 / 562949953421312) (3602879701896397 / 36028797018963968) = 5"
    unfolding fsub_def by (subst round_double_eqI[of 2]) (simp_all add: rne_def)
qed

text \<open>The doubles nearest to 5.1 and to 0.1 are doubles.\<close>

lemma doubles_5_1_and_0_1:
  "round_double (2871044762448691 / 562949953421312) = 2871044762448691 / 562949953421312"
  "round_double (3602879701896397 / 36028797018963968) = 3602879701896397 / 36028797018963968"
proof -
  show "round_double (2871044762448691 / 562949953421312) = 2871044762448691 / 562949953421312"
    by (subst round_double_eqI[of 2]) (simp_all add: rne_def)
  show "round_double (3602879701896397 / 36028797018963968)
      = 3602879701896397 / 36028797018963968"
    by (subst round_double_eqI[of "- 4"]) (simp_all add: rne_def)
qed

lemma ephemeral_hit:
  assumes "cache_attrs self (name @ ''_cache'') = Some (cached, ts)"
    and "fsub (time w) ts < real_of_int (self_ephemeral_ttl self)"
  shows "ephemeral time name func self w = (Inr cached, self, w)"
  using assms by (simp add: ephemeral_def)

lemma ephemeral_miss:
  assumes "cache_attrs self (name @ ''_cache'') = None \<or>
      (\<exists>cached ts. cache_attrs self (name @ ''_cache'') = Some (cached, ts) \<and>
         \<not> fsub (time w) ts < real_of_int (self_ephemeral_ttl self))"
  shows "ephemeral time name func self w =
      ephemeral_call time (name @ ''_cache'') func self w"
  using assms by (auto simp: ephemeral_def)

lemma ephemeral_call_counted_ok:
  assumes "func w = (Inr result, w1)"
  shows "ephemeral_call (\<lambda>wn. time (fst wn)) key (counted func) self (w, n) =
      (Inr result, self\<lparr>cache_attrs := (cache_attrs self)(key \<mapsto> (result, time w1))\<rparr>,
       (w1, Suc n))"
  using assms by (simp add: ephemeral_call_def counted_def)

lemma ephemeral_call_counted_raise:
  assumes "func w = (Inl e, w1)"
  shows "ephemeral_call (\<lambda>wn. time (fst wn)) key (counted func) self (w, n) =
      (Inl e, self, (w1, Suc n))"
  using assms by (simp add: ephemeral_call_def counted_def)

lemma ephemeral_call_counted_runs:
  "snd (snd (snd (ephemeral_call (\<lambda>wn. time (fst wn)) key (counted func) self (w, n)))) = Suc n \<and>
   fst (ephemeral_call (\<lambda>wn. time (fst wn)) key (counted func) self (w, n)) = fst (func w)"
  by (cases "func w") (auto simp: ephemeral_call_def counted_def split: sum.splits)

text \<open>
  C2, as amended. The age of a slot is the float difference of the clock and the slot's
  reading, \<open>fsub now cached_at\<close>. With a slot for the operation whose age is below
  \<^verbatim>\<open>_ephemeral_ttl\<close> the wrapper returns the cached value, and neither the object nor the
  world changes: the body is not run (its count stays). Without a slot, or with one whose
  age is not below \<^verbatim>\<open>_ephemeral_ttl\<close>, the body runs once; its result is returned and
  stored with the clock reading taken after the body, over any earlier slot. After such a
  call, every call at which the age of that slot is below \<^verbatim>\<open>_ephemeral_ttl\<close> returns the
  stored result without running the body, and every other call runs the body again.
\<close>

theorem ephemeral_window:
  fixes time :: "'w \<Rightarrow> real" and func :: "'w \<Rightarrow> ('x + 'r) \<times> 'w"
  shows
  "(let key = name @ ''_cache'';
        ttl = real_of_int (self_ephemeral_ttl self);
        T = (\<lambda>wn. time (fst wn))
    in (\<forall>cached ts. cache_attrs self key = Some (cached, ts) \<and> fsub (time w) ts < ttl \<longrightarrow>
          ephemeral T name (counted func) self (w, n) = (Inr cached, self, (w, n))) \<and>
       ((cache_attrs self key = None \<or>
          (\<exists>cached ts. cache_attrs self key = Some (cached, ts) \<and> \<not> fsub (time w) ts < ttl)) \<and>
         func w = (Inr result, w1) \<longrightarrow>
          (let self1 = self\<lparr>cache_attrs := (cache_attrs self)(key \<mapsto> (result, time w1))\<rparr>
           in ephemeral T name (counted func) self (w, n) = (Inr result, self1, (w1, Suc n)) \<and>
              (\<forall>w2 m. fsub (time w2) (time w1) < ttl \<longrightarrow>
                 ephemeral T name (counted func) self1 (w2, m) = (Inr result, self1, (w2, m))) \<and>
              (\<forall>w3 m. \<not> fsub (time w3) (time w1) < ttl \<longrightarrow>
                 ephemeral T name (counted func) self1 (w3, m) =
                   ephemeral_call T key (counted func) self1 (w3, m) \<and>
                 snd (snd (snd (ephemeral T name (counted func) self1 (w3, m)))) = Suc m \<and>
                 fst (ephemeral T name (counted func) self1 (w3, m)) = fst (func w3)))))"
proof -
  let ?key = "name @ ''_cache''"
  let ?ttl = "real_of_int (self_ephemeral_ttl self)"
  let ?T = "\<lambda>wn :: 'w \<times> nat. time (fst wn)"
  have hit: "ephemeral ?T name (counted func) self (w, n) = (Inr cached, self, (w, n))"
    if "cache_attrs self ?key = Some (cached, ts) \<and> fsub (time w) ts < ?ttl" for cached ts
    using that by (intro ephemeral_hit[where ts = ts]) simp_all
  have run:
    "ephemeral ?T name (counted func) self (w, n) =
       (Inr result, self\<lparr>cache_attrs := (cache_attrs self)(?key \<mapsto> (result, time w1))\<rparr>,
        (w1, Suc n))"
    if m: "cache_attrs self ?key = None \<or>
          (\<exists>cached ts. cache_attrs self ?key = Some (cached, ts) \<and> \<not> fsub (time w) ts < ?ttl)"
      and ok: "func w = (Inr result, w1)"
  proof -
    have "ephemeral ?T name (counted func) self (w, n) =
        ephemeral_call ?T ?key (counted func) self (w, n)"
      using m by (intro ephemeral_miss) simp
    also have "\<dots> = (Inr result,
        self\<lparr>cache_attrs := (cache_attrs self)(?key \<mapsto> (result, time w1))\<rparr>, (w1, Suc n))"
      using ok by (rule ephemeral_call_counted_ok)
    finally show ?thesis .
  qed
  let ?self1 = "self\<lparr>cache_attrs := (cache_attrs self)(?key \<mapsto> (result, time w1))\<rparr>"
  have slot: "cache_attrs ?self1 ?key = Some (result, time w1)"
    "self_ephemeral_ttl ?self1 = self_ephemeral_ttl self"
    by simp_all
  have again: "ephemeral ?T name (counted func) ?self1 (w2, m) = (Inr result, ?self1, (w2, m))"
    if "fsub (time w2) (time w1) < ?ttl" for w2 m
    using that slot by (intro ephemeral_hit[where ts = "time w1"]) simp_all
  have later: "ephemeral ?T name (counted func) ?self1 (w3, m) =
        ephemeral_call ?T ?key (counted func) ?self1 (w3, m) \<and>
      snd (snd (snd (ephemeral ?T name (counted func) ?self1 (w3, m)))) = Suc m \<and>
      fst (ephemeral ?T name (counted func) ?self1 (w3, m)) = fst (func w3)"
    if "\<not> fsub (time w3) (time w1) < ?ttl" for w3 m
  proof -
    have "ephemeral ?T name (counted func) ?self1 (w3, m) =
        ephemeral_call ?T ?key (counted func) ?self1 (w3, m)"
      using that slot by (intro ephemeral_miss) simp
    then show ?thesis
      using ephemeral_call_counted_runs[of time ?key func ?self1 w3 m] by simp
  qed
  from hit run again later show ?thesis
    unfolding Let_def by blast
qed

theorem ephemeral_window_witness:
  "ephemeral fst ''get_status'' (counted probe)
     \<lparr>cache_attrs = Map.empty, self_ephemeral_ttl = 5\<rparr> (10, 0)
     = (Inr 10, \<lparr>cache_attrs = [''get_status_cache'' \<mapsto> (10, 11)], self_ephemeral_ttl = 5\<rparr>,
        (11, 1)) \<and>
   ephemeral fst ''get_status'' (counted probe)
     \<lparr>cache_attrs = [''get_status_cache'' \<mapsto> (10, 11)], self_ephemeral_ttl = 5\<rparr> (13, 1)
     = (Inr 10, \<lparr>cache_attrs = [''get_status_cache'' \<mapsto> (10, 11)], self_ephemeral_ttl = 5\<rparr>,
        (13, 1)) \<and>
   snd (snd (snd (ephemeral fst ''get_status'' (counted probe)
     \<lparr>cache_attrs = [''get_status_cache'' \<mapsto> (10, 11)], self_ephemeral_ttl = 5\<rparr> (16, 1))))
     = 2 \<and>
   fst (ephemeral fst ''get_status'' (counted probe)
     \<lparr>cache_attrs = [''get_status_cache'' \<mapsto> (10, 11)], self_ephemeral_ttl = 5\<rparr> (16, 1))
     = Inr 16"
proof -
  let ?s0 = "\<lparr>cache_attrs = Map.empty, self_ephemeral_ttl = 5\<rparr> :: real ephemeral_self"
  let ?s1 = "\<lparr>cache_attrs = [''get_status_cache'' \<mapsto> (10, 11)], self_ephemeral_ttl = 5\<rparr>
      :: real ephemeral_self"
  let ?E = "ephemeral fst ''get_status'' (counted probe)"
  have p: "probe 10 = (Inr 10, 11)" "fst (probe 16) = Inr 16"
    by (simp_all add: probe_def)
  have s1: "?s0\<lparr>cache_attrs := (cache_attrs ?s0)(''get_status'' @ ''_cache'' \<mapsto> (10, 11))\<rparr>
      = ?s1"
    by simp
  have miss: "(cache_attrs ?s0 (''get_status'' @ ''_cache'') = None \<or>
      (\<exists>cached ts. cache_attrs ?s0 (''get_status'' @ ''_cache'') = Some (cached, ts) \<and>
         \<not> fsub 10 ts < real_of_int (self_ephemeral_ttl ?s0))) \<and> probe 10 = (Inr 10, 11)"
    using p(1) by simp
  note w = ephemeral_window[where self = ?s0 and name = "''get_status''"
      and time = "\<lambda>w. w" and w = 10 and func = probe and n = 0 and result = 10
      and ?w1.0 = 11, unfolded Let_def s1, THEN conjunct2, rule_format, OF miss]
  have first: "?E ?s0 (10, 0) = (Inr 10, ?s1, (11, 1))"
    using w[THEN conjunct1] by simp
  have "fsub 13 11 < real_of_int (self_ephemeral_ttl ?s0)" by (simp add: fsub_examples)
  from w[THEN conjunct2, THEN conjunct1, rule_format, OF this]
  have second: "?E ?s1 (13, 1) = (Inr 10, ?s1, (13, 1))" .
  have "\<not> fsub 16 11 < real_of_int (self_ephemeral_ttl ?s0)" by (simp add: fsub_examples)
  from w[THEN conjunct2, THEN conjunct2, rule_format, OF this, of 1, THEN conjunct2]
  have third: "snd (snd (snd (?E ?s1 (16, 1)))) = 2 \<and> fst (?E ?s1 (16, 1)) = Inr 16"
    using p(2) by simp
  from first second third show ?thesis by blast
qed

text \<open>
  At the edge of the window the float difference is not the time that has passed: with a
  slot written at the double nearest to 0.1, a window of 5 seconds and the clock at the
  double nearest to 5.1, less than 5 seconds have passed, but \<^verbatim>\<open>5.1 - 0.1\<close> is the
  float 5.0, so the cached value 0 is not returned and the body runs.
\<close>

theorem ephemeral_window_edge_counterexample:
  "(2871044762448691 / 562949953421312 :: real) - 3602879701896397 / 36028797018963968
     < real_of_int 5 \<and>
   ephemeral fst ''get_status'' (counted probe)
     \<lparr>cache_attrs = [''get_status_cache'' \<mapsto> (0, 3602879701896397 / 36028797018963968)],
      self_ephemeral_ttl = 5\<rparr>
     (2871044762448691 / 562949953421312, 0)
     = (Inr (2871044762448691 / 562949953421312),
        \<lparr>cache_attrs = [''get_status_cache'' \<mapsto>
           (2871044762448691 / 562949953421312, 2871044762448691 / 562949953421312 + 1)],
         self_ephemeral_ttl = 5\<rparr>,
        (2871044762448691 / 562949953421312 + 1, 1))"
  by (simp add: ephemeral_def ephemeral_call_def counted_def probe_def fsub_examples)

text \<open>
  C3. When the body raises on a call that runs it (no slot, or a slot that is too old),
  the wrapper returns that same exception and the object is unchanged: no slot is
  written and an earlier slot keeps its value. Every later call then runs the body
  again and returns what the body returns, whether a result or an exception.
\<close>

theorem ephemeral_no_failure_caching:
  fixes time :: "'w \<Rightarrow> real" and func :: "'w \<Rightarrow> ('x + 'r) \<times> 'w"
  shows
  "(let key = name @ ''_cache'';
        ttl = real_of_int (self_ephemeral_ttl self);
        T = (\<lambda>wn. time (fst wn))
    in (cache_attrs self key = None \<or>
          (\<exists>cached ts. cache_attrs self key = Some (cached, ts) \<and> \<not> fsub (time w) ts < ttl)) \<and>
       func w = (Inl e, w1) \<longrightarrow>
         ephemeral T name (counted func) self (w, n) = (Inl e, self, (w1, Suc n)) \<and>
         (\<forall>w2 m. time w \<le> time w2 \<longrightarrow>
            ephemeral T name (counted func) self (w2, m) =
              ephemeral_call T key (counted func) self (w2, m) \<and>
            snd (snd (snd (ephemeral T name (counted func) self (w2, m)))) = Suc m \<and>
            fst (ephemeral T name (counted func) self (w2, m)) = fst (func w2)))"
proof -
  let ?key = "name @ ''_cache''"
  let ?ttl = "real_of_int (self_ephemeral_ttl self)"
  let ?T = "\<lambda>wn :: 'w \<times> nat. time (fst wn)"
  have main: "ephemeral ?T name (counted func) self (w, n) = (Inl e, self, (w1, Suc n)) \<and>
         (\<forall>w2 m. time w \<le> time w2 \<longrightarrow>
            ephemeral ?T name (counted func) self (w2, m) =
              ephemeral_call ?T ?key (counted func) self (w2, m) \<and>
            snd (snd (snd (ephemeral ?T name (counted func) self (w2, m)))) = Suc m \<and>
            fst (ephemeral ?T name (counted func) self (w2, m)) = fst (func w2))"
    if m: "cache_attrs self ?key = None \<or>
          (\<exists>cached ts. cache_attrs self ?key = Some (cached, ts) \<and> \<not> fsub (time w) ts < ?ttl)"
      and bad: "func w = (Inl e, w1)"
  proof (intro conjI allI impI)
    have "ephemeral ?T name (counted func) self (w, n) =
        ephemeral_call ?T ?key (counted func) self (w, n)"
      using m by (intro ephemeral_miss) simp
    also have "\<dots> = (Inl e, self, (w1, Suc n))"
      using bad by (rule ephemeral_call_counted_raise)
    finally show "ephemeral ?T name (counted func) self (w, n) = (Inl e, self, (w1, Suc n))" .
  next
    fix w2 m
    assume later: "time w \<le> time w2"
    have m2: "cache_attrs self ?key = None \<or>
          (\<exists>cached ts. cache_attrs self ?key = Some (cached, ts) \<and> \<not> fsub (time w2) ts < ?ttl)"
    proof (rule disjE[OF m])
      assume "cache_attrs self ?key = None"
      then show ?thesis by simp
    next
      assume "\<exists>cached ts. cache_attrs self ?key = Some (cached, ts) \<and>
          \<not> fsub (time w) ts < ?ttl"
      then obtain cached ts where s: "cache_attrs self ?key = Some (cached, ts)"
        and st: "\<not> fsub (time w) ts < ?ttl" by blast
      have "fsub (time w) ts \<le> fsub (time w2) ts"
        using later by (rule fsub_mono)
      with st have "\<not> fsub (time w2) ts < ?ttl" by linarith
      with s show ?thesis by blast
    qed
    then show eq: "ephemeral ?T name (counted func) self (w2, m) =
        ephemeral_call ?T ?key (counted func) self (w2, m)"
      by (intro ephemeral_miss) simp
    show "snd (snd (snd (ephemeral ?T name (counted func) self (w2, m)))) = Suc m"
      "fst (ephemeral ?T name (counted func) self (w2, m)) = fst (func w2)"
      using ephemeral_call_counted_runs[of time ?key func self w2 m] by (simp_all add: eq)
  qed
  then show ?thesis
    unfolding Let_def by blast
qed

theorem ephemeral_no_failure_caching_witness:
  "ephemeral fst ''get_status'' (counted probe)
     \<lparr>cache_attrs = Map.empty, self_ephemeral_ttl = 5\<rparr> (- 3, 0)
     = (Inl ''offline'', \<lparr>cache_attrs = Map.empty, self_ephemeral_ttl = 5\<rparr>, (- 2, 1)) \<and>
   snd (snd (snd (ephemeral fst ''get_status'' (counted probe)
     \<lparr>cache_attrs = Map.empty, self_ephemeral_ttl = 5\<rparr> (0, 1)))) = 2 \<and>
   fst (ephemeral fst ''get_status'' (counted probe)
     \<lparr>cache_attrs = Map.empty, self_ephemeral_ttl = 5\<rparr> (0, 1)) = Inr 0"
proof -
  let ?s0 = "\<lparr>cache_attrs = Map.empty, self_ephemeral_ttl = 5\<rparr> :: real ephemeral_self"
  let ?E = "ephemeral fst ''get_status'' (counted probe)"
  have p: "probe (- 3) = (Inl ''offline'', - 2)" "fst (probe 0) = Inr 0"
    by (simp_all add: probe_def)
  have miss: "(cache_attrs ?s0 (''get_status'' @ ''_cache'') = None \<or>
      (\<exists>cached ts. cache_attrs ?s0 (''get_status'' @ ''_cache'') = Some (cached, ts) \<and>
         \<not> fsub (- 3) ts < real_of_int (self_ephemeral_ttl ?s0))) \<and>
      probe (- 3) = (Inl ''offline'', - 2)"
    using p(1) by simp
  note w = ephemeral_no_failure_caching[where self = ?s0 and name = "''get_status''"
      and time = "\<lambda>w. w" and w = "- 3" and func = probe and e = "''offline''"
      and ?w1.0 = "- 2" and n = 0, unfolded Let_def, rule_format, OF miss]
  have first: "?E ?s0 (- 3, 0) = (Inl ''offline'', ?s0, (- 2, 1))"
    using w[THEN conjunct1] by simp
  have "(- 3 :: real) \<le> 0" by simp
  from w[THEN conjunct2, rule_format, OF this, of 1, THEN conjunct2]
  have second: "snd (snd (snd (?E ?s0 (0, 1)))) = 2 \<and> fst (?E ?s0 (0, 1)) = Inr 0"
    using p(2) by simp
  from first second show ?thesis by blast
qed

section \<open>Clients and servers: proofs\<close>


lemma valid_key_has_id:
  assumes "validate_server_key k = Inr ()"
  shows "k \<noteq> [] \<and> (\<exists>sid. get_server_id k = Inr sid)"
proof -
  from assms have "matches_pattern k"
    by (simp add: validate_server_key_def re_match_iff split: if_splits)
  then obtain a b nl where k: "k = a @ 45 # b @ nl"
    and ab: "list_all letter a" "list_all letter b" and nl: "nl = [] \<or> nl = [10]"
    unfolding matches_pattern_def by blast
  have "split 45 k = [a, b @ nl]"
    unfolding k using ab nl by (rule split_matching_key)
  then have "get_server_id k = Inr (b @ nl)"
    by (simp add: get_server_id_def)
  with k show ?thesis by simp
qed

lemma replicate_key:
  assumes "letter c" "letter d"
  shows "validate_server_key (replicate 10 c @ 45 # replicate 40 d) = Inr () \<and>
         get_server_id (replicate 10 c @ 45 # replicate 40 d) = Inr (replicate 40 d)"
proof -
  have l: "list_all letter (replicate 10 c)" "list_all letter (replicate 40 d)"
    using assms by (simp_all add: letters_replicate)
  have "matches_pattern (replicate 10 c @ 45 # replicate 40 d)"
    unfolding matches_pattern_def using l
    by (intro exI[of _ "replicate 10 c"] exI[of _ "replicate 40 d"] exI[of _ "[]"]) simp
  moreover have "split 45 (replicate 10 c @ 45 # replicate 40 d)
      = [replicate 10 c, replicate 40 d]"
    using split_matching_key[OF l, of "[]"] by simp
  ultimately show ?thesis
    by (simp add: validate_server_key_def re_match_iff get_server_id_def)
qed

lemma key_A_ok:
  "validate_server_key key_A = Inr ()" "get_server_id key_A = Inr (replicate 40 98)"
  "key_A \<noteq> []"
  using replicate_key[of 97 98] by (simp_all add: key_A_def letter_def)

lemma key_B_ok:
  "validate_server_key key_B = Inr ()" "get_server_id key_B = Inr (replicate 40 99)"
  "key_B \<noteq> []"
  using replicate_key[of 97 99] by (simp_all add: key_B_def letter_def)

lemma find_last:
  "\<forall>e \<in> set xs. \<not> P e \<Longrightarrow> P y \<Longrightarrow> find P (xs @ [y]) = Some y"
  by (induction xs) auto

lemma cache_set_entries_shape:
  "\<exists>kept. entries (snd (cache_set now k v c)) =
      kept @ [\<lparr>entry_key = k, entry_value = v, inserted_at = now\<rparr>] \<and>
      (\<forall>e \<in> set kept. entry_key e \<noteq> k)"
proof (cases "k \<in> set (map entry_key (entries c))")
  case True
  have "\<forall>e \<in> set (filter (\<lambda>e. entry_key e \<noteq> k) (entries c)). entry_key e \<noteq> k"
    by simp
  with cache_set_existing[OF True] show ?thesis by blast
next
  case False
  then have all: "\<forall>e \<in> set (entries c). entry_key e \<noteq> k" by auto
  show ?thesis
  proof (cases "length (entries c) = capacity c")
    case neq: False
    from cache_set_room[OF False neq] all show ?thesis by blast
  next
    case full: True
    show ?thesis
    proof (cases "entries c")
      case Nil
      then have "entries (snd (cache_set now k v c)) =
          [] @ [\<lparr>entry_key = k, entry_value = v, inserted_at = now\<rparr>]"
        using False full by (simp add: cache_set_def Let_def)
      then show ?thesis by (intro exI[of _ "[]"]) simp
    next
      case (Cons oldest rest)
      from all Cons have "\<forall>e \<in> set rest. entry_key e \<noteq> k" by simp
      with cache_set_overflow[OF False full Cons] show ?thesis by blast
    qed
  qed
qed

lemma cache_get_after_set: "cache_get now k (snd (cache_set now k v c)) = Some v"
proof -
  obtain kept where es: "entries (snd (cache_set now k v c)) =
      kept @ [\<lparr>entry_key = k, entry_value = v, inserted_at = now\<rparr>]"
    and kept: "\<forall>e \<in> set kept. entry_key e \<noteq> k"
    using cache_set_entries_shape[of now k v c] by blast
  have "find (\<lambda>e. entry_key e = k) (entries (snd (cache_set now k v c))) =
      Some \<lparr>entry_key = k, entry_value = v, inserted_at = now\<rparr>"
    unfolding es using kept by (rule find_last) simp
  then show ?thesis
    by (auto simp: cache_get_def live_def)
qed

lemma cache_set_single:
  "filter (\<lambda>e. entry_key e = k) (entries (snd (cache_set now k v c))) =
      [\<lparr>entry_key = k, entry_value = v, inserted_at = now\<rparr>]"
proof -
  obtain kept where es: "entries (snd (cache_set now k v c)) =
      kept @ [\<lparr>entry_key = k, entry_value = v, inserted_at = now\<rparr>]"
    and kept: "\<forall>e \<in> set kept. entry_key e \<noteq> k"
    using cache_set_entries_shape[of now k v c] by blast
  from kept have "filter (\<lambda>e. entry_key e = k) kept = []"
    by (simp add: filter_empty_conv)
  then show ?thesis by (simp add: es)
qed

lemma Server_init_ok:
  assumes "validate_server_key key = Inr ()" "get_server_id key = Inr sid"
  shows "\<exists>srv. Server_init self key ttl cache ignore h =
             Inr (srv, h\<lparr>next_oid := Suc (next_oid h)\<rparr>) \<and>
           server_oid srv = next_oid h \<and> server_id srv = sid \<and>
           ignore_global_key srv = ignore \<and> ephemeral_ttl srv = ttl \<and>
           server_global_cache srv = prc_global_cache self \<and>
           server_cache_at srv =
             (case cache of None \<Rightarrow> default_ServerCache_at | Some a \<Rightarrow> a)"
  using assms by (simp add: Server_init_def)

lemma call_Return: "call (Return r) h = (case r of Inl e \<Rightarrow> Inl e | Inr a \<Rightarrow> Inr (a, h))"
  by (simp add: call_def)

lemma call_Read: "call (Read k) h = call (k h) h"
  by (simp add: call_def)

lemma run_set_new_server_task:
  "run (set_new_server_task self server_key ignore sid now) h =
     (case Server_init self server_key 5 None ignore h of
        Inl e \<Rightarrow> (h, Inl e)
      | Inr (srv, h1) \<Rightarrow>
          (h1\<lparr>global_caches := (global_caches h1)
               (prc_global_cache self := (global_caches h1 (prc_global_cache self))
                  \<lparr>servers := snd (cache_set now sid srv
                      (servers (global_caches h1 (prc_global_cache self))))\<rparr>)\<rparr>,
           Inr (fst (cache_set now sid srv
                      (servers (global_caches h1 (prc_global_cache self)))))))"
proof (cases "Server_init self server_key 5 None ignore h")
  case (Inl e)
  then show ?thesis by (simp add: set_new_server_task_def)
next
  case (Inr p)
  obtain srv h1 where p: "p = (srv, h1)" by (cases p)
  show ?thesis
    unfolding set_new_server_task_def by (simp add: Inr p Let_def)
qed

lemma segment_set_new_server_task:
  "segment (set_new_server_task self server_key ignore sid now) h =
     (case run (set_new_server_task self server_key ignore sid now) h of
        (h', r) \<Rightarrow> (h', Inl r))"
proof (cases "Server_init self server_key 5 None ignore h")
  case (Inl e)
  then show ?thesis by (simp add: set_new_server_task_def)
next
  case (Inr p)
  obtain srv h1 where p: "p = (srv, h1)" by (cases p)
  show ?thesis
    unfolding set_new_server_task_def by (simp add: Inr p Let_def)
qed

lemma set_new_server_eq:
  "set_new_server self server_key ignore sid now h =
     (case Server_init self server_key 5 None ignore h of
        Inl e \<Rightarrow> Inl e
      | Inr (srv, h1) \<Rightarrow>
          (let gc = global_caches h1 (prc_global_cache self);
               stored = cache_set now sid srv (servers gc)
           in Inr (fst stored,
                   h1\<lparr>global_caches := (global_caches h1)
                        (prc_global_cache self := gc\<lparr>servers := snd stored\<rparr>)\<rparr>)))"
proof (cases "Server_init self server_key 5 None ignore h")
  case (Inl e)
  then show ?thesis
    by (simp add: set_new_server_def call_def run_set_new_server_task)
next
  case (Inr p)
  obtain srv h1 where p: "p = (srv, h1)" by (cases p)
  show ?thesis
    by (simp add: set_new_server_def call_def run_set_new_server_task Inr p Let_def)
qed

lemma get_server_eq:
  "get_server self server_key ignore now h =
     (case (if \<not> truthy server_key then default_server_key self else server_key) of
        None \<Rightarrow> Inl ValueError
      | Some k \<Rightarrow>
          if k = [] then Inl ValueError
          else
            (case validate_server_key k of
               Inl e \<Rightarrow> Inl e
             | Inr u \<Rightarrow>
                 (case get_server_id k of
                    Inl e \<Rightarrow> Inl e
                  | Inr sid \<Rightarrow>
                      (case cache_get now sid
                              (servers (global_caches h (prc_global_cache self))) of
                         None \<Rightarrow> set_new_server self k ignore sid now h
                       | Some existing_server \<Rightarrow>
                           if ignore_global_key existing_server = ignore
                           then Inr (existing_server, h)
                           else set_new_server self k ignore sid now h))))"
  unfolding get_server_def get_server_task_def set_new_server_def
  by (simp add: call_Return call_Read split: option.split sum.split)

text \<open>A task with an \<^verbatim>\<open>await\<close> between its read and its write suspends there.\<close>

lemma await_suspends:
  "segment (Read (\<lambda>s. Await (Write f (Return a)))) s = (s, Inr (Write f (Return a)))"
  by simp

lemma get_server_segment:
  "segment (get_server_task self server_key ignore now) h =
     (case run (get_server_task self server_key ignore now) h of
        (h', r) \<Rightarrow> (h', Inl r))"
  unfolding get_server_task_def
  by (simp add: segment_set_new_server_task split: option.split sum.split)

lemma set_new_server_ok:
  assumes v: "validate_server_key key = Inr ()" and i: "get_server_id key = Inr sid"
  shows "\<exists>srv h'. set_new_server self key ignore sid now h = Inr (srv, h') \<and>
      Server_init self key 5 None ignore h = Inr (srv, h\<lparr>next_oid := Suc (next_oid h)\<rparr>) \<and>
      server_oid srv = next_oid h \<and> server_id srv = sid \<and> ignore_global_key srv = ignore \<and>
      h' = h\<lparr>next_oid := Suc (next_oid h),
             global_caches := (global_caches h)
               (prc_global_cache self := (global_caches h (prc_global_cache self))
                  \<lparr>servers := snd (cache_set now sid srv
                      (servers (global_caches h (prc_global_cache self))))\<rparr>)\<rparr>"
proof -
  obtain srv where s: "Server_init self key 5 None ignore h =
             Inr (srv, h\<lparr>next_oid := Suc (next_oid h)\<rparr>)"
    and p: "server_oid srv = next_oid h" "server_id srv = sid" "ignore_global_key srv = ignore"
    using Server_init_ok[OF v i, of self 5 None ignore h] by blast
  have "set_new_server self key ignore sid now h =
      Inr (srv, h\<lparr>next_oid := Suc (next_oid h),
             global_caches := (global_caches h)
               (prc_global_cache self := (global_caches h (prc_global_cache self))
                  \<lparr>servers := snd (cache_set now sid srv
                      (servers (global_caches h (prc_global_cache self))))\<rparr>)\<rparr>)"
    by (simp add: set_new_server_eq s Let_def cache_set_fst)
  with s p show ?thesis by blast
qed

lemma get_server_valid:
  assumes v: "validate_server_key key = Inr ()" and i: "get_server_id key = Inr sid"
  shows "get_server self (Some key) ignore now h =
      (case cache_get now sid (servers (global_caches h (prc_global_cache self))) of
         None \<Rightarrow> set_new_server self key ignore sid now h
       | Some existing_server \<Rightarrow>
           if ignore_global_key existing_server = ignore then Inr (existing_server, h)
           else set_new_server self key ignore sid now h)"
  using valid_key_has_id[OF v] v i by (simp add: get_server_eq truthy_def)

lemma get_server_default_key:
  "default_server_key self = Some key \<Longrightarrow>
     get_server self None ignore now h = get_server self (Some key) ignore now h"
  by (simp add: get_server_eq truthy_def)

lemma get_server_never_suspends:
  "\<exists>h' r. segment (get_server_task self server_key ignore now) h = (h', Inl r)"
  by (cases "run (get_server_task self server_key ignore now) h")
    (simp add: get_server_segment)

lemma get_server_segment_result:
  assumes "get_server self server_key ignore now h = Inr (srv, h')"
  shows "segment (get_server_task self server_key ignore now) h = (h', Inl (Inr srv))"
proof -
  obtain h2 r where r: "run (get_server_task self server_key ignore now) h = (h2, r)"
    by (cases "run (get_server_task self server_key ignore now) h")
  with assms have "r = Inr srv \<and> h2 = h'"
    by (cases r) (simp_all add: get_server_def call_def)
  with r show ?thesis
    by (simp add: get_server_segment)
qed

text \<open>
  C7. For a key that \<^verbatim>\<open>_validate_server_key\<close> accepts, with \<open>sid\<close> its server id:
  when \<^verbatim>\<open>servers.get(sid)\<close> yields a server whose \<^verbatim>\<open>_ignore_global_key\<close> equals the
  argument, \<^verbatim>\<open>get_server\<close> returns that server and the store is unchanged; otherwise it
  returns a new \<^verbatim>\<open>Server\<close> (a new object identity, the id \<open>sid\<close>, the given flag), and
  the only change besides the identity counter is in the client's global cache, where
  the servers cache is the result of \<^verbatim>\<open>set(sid, server)\<close>: \<^verbatim>\<open>get(sid)\<close> then yields the
  new server and it is the only entry under \<open>sid\<close>. On both paths, and for every
  argument, the task of \<^verbatim>\<open>get_server\<close> returns in the segment in which it starts: it has
  no suspension point between its read and its write, so no other task runs there.
\<close>

theorem get_server_resolution:
  assumes "validate_server_key key = Inr ()"
  shows
    "\<exists>sid. get_server_id key = Inr sid \<and>
       (let a = prc_global_cache self;
            gc = global_caches h a;
            existing = cache_get now sid (servers gc)
        in (\<forall>s. existing = Some s \<and> ignore_global_key s = ignore \<longrightarrow>
              get_server self (Some key) ignore now h = Inr (s, h) \<and>
              segment (get_server_task self (Some key) ignore now) h = (h, Inl (Inr s))) \<and>
           (existing = None \<or> (\<exists>s. existing = Some s \<and> ignore_global_key s \<noteq> ignore) \<longrightarrow>
              (\<exists>srv h'. get_server self (Some key) ignore now h = Inr (srv, h') \<and>
                 segment (get_server_task self (Some key) ignore now) h =
                   (h', Inl (Inr srv)) \<and>
                 Server_init self key 5 None ignore h =
                   Inr (srv, h\<lparr>next_oid := Suc (next_oid h)\<rparr>) \<and>
                 server_oid srv = next_oid h \<and> server_id srv = sid \<and>
                 ignore_global_key srv = ignore \<and>
                 h' = h\<lparr>next_oid := Suc (next_oid h),
                        global_caches := (global_caches h)
                          (a := gc\<lparr>servers := snd (cache_set now sid srv (servers gc))\<rparr>)\<rparr> \<and>
                 cache_get now sid (servers (global_caches h' a)) = Some srv \<and>
                 filter (\<lambda>e. entry_key e = sid) (entries (servers (global_caches h' a))) =
                   [\<lparr>entry_key = sid, entry_value = srv, inserted_at = now\<rparr>])) \<and>
           (default_server_key self = Some key \<longrightarrow>
              get_server self None ignore now h = get_server self (Some key) ignore now h) \<and>
           (\<forall>server_key. \<exists>h' r.
              segment (get_server_task self server_key ignore now) h = (h', Inl r)))"
proof -
  obtain sid where sid: "get_server_id key = Inr sid"
    using valid_key_has_id[OF assms] by blast
  let ?a = "prc_global_cache self"
  let ?gc = "global_caches h ?a"
  let ?existing = "cache_get now sid (servers ?gc)"
  note gs = get_server_valid[OF assms sid, of self ignore now h]
  have hit: "get_server self (Some key) ignore now h = Inr (s, h) \<and>
      segment (get_server_task self (Some key) ignore now) h = (h, Inl (Inr s))"
    if "?existing = Some s \<and> ignore_global_key s = ignore" for s
  proof -
    have "get_server self (Some key) ignore now h = Inr (s, h)"
      using that by (simp add: gs)
    then show ?thesis
      using get_server_segment_result by blast
  qed
  have miss: "\<exists>srv h'. get_server self (Some key) ignore now h = Inr (srv, h') \<and>
       segment (get_server_task self (Some key) ignore now) h = (h', Inl (Inr srv)) \<and>
       Server_init self key 5 None ignore h = Inr (srv, h\<lparr>next_oid := Suc (next_oid h)\<rparr>) \<and>
       server_oid srv = next_oid h \<and> server_id srv = sid \<and> ignore_global_key srv = ignore \<and>
       h' = h\<lparr>next_oid := Suc (next_oid h),
              global_caches := (global_caches h)
                (?a := ?gc\<lparr>servers := snd (cache_set now sid srv (servers ?gc))\<rparr>)\<rparr> \<and>
       cache_get now sid (servers (global_caches h' ?a)) = Some srv \<and>
       filter (\<lambda>e. entry_key e = sid) (entries (servers (global_caches h' ?a))) =
         [\<lparr>entry_key = sid, entry_value = srv, inserted_at = now\<rparr>]"
    if m: "?existing = None \<or> (\<exists>s. ?existing = Some s \<and> ignore_global_key s \<noteq> ignore)"
  proof -
    from m have g: "get_server self (Some key) ignore now h =
        set_new_server self key ignore sid now h"
      by (auto simp: gs)
    obtain srv h' where n: "set_new_server self key ignore sid now h = Inr (srv, h')"
      and i: "Server_init self key 5 None ignore h =
          Inr (srv, h\<lparr>next_oid := Suc (next_oid h)\<rparr>)"
      and p: "server_oid srv = next_oid h" "server_id srv = sid" "ignore_global_key srv = ignore"
      and h': "h' = h\<lparr>next_oid := Suc (next_oid h),
             global_caches := (global_caches h)
               (?a := ?gc\<lparr>servers := snd (cache_set now sid srv (servers ?gc))\<rparr>)\<rparr>"
      using set_new_server_ok[OF assms sid, of self ignore now h] by blast
    have c: "servers (global_caches h' ?a) = snd (cache_set now sid srv (servers ?gc))"
      by (simp add: h')
    have "cache_get now sid (servers (global_caches h' ?a)) = Some srv"
      unfolding c by (rule cache_get_after_set)
    moreover have "filter (\<lambda>e. entry_key e = sid) (entries (servers (global_caches h' ?a))) =
         [\<lparr>entry_key = sid, entry_value = srv, inserted_at = now\<rparr>]"
      unfolding c by (rule cache_set_single)
    moreover have gr: "get_server self (Some key) ignore now h = Inr (srv, h')"
      using g n by simp
    moreover have "segment (get_server_task self (Some key) ignore now) h =
        (h', Inl (Inr srv))"
      using gr by (rule get_server_segment_result)
    ultimately show ?thesis
      using i p h' by (intro exI[of _ srv] exI[of _ h']) simp
  qed
  have nosusp: "\<exists>h' r. segment (get_server_task self server_key ignore now) h = (h', Inl r)"
    for server_key
    by (rule get_server_never_suspends)
  have dflt: "get_server self None ignore now h = get_server self (Some key) ignore now h"
    if "default_server_key self = Some key"
    using that by (rule get_server_default_key)
  from sid hit miss dflt nosusp show ?thesis
    unfolding Let_def by blast
qed


theorem get_server_resolution_witness:
  "(case get_server \<lparr>global_key = None, default_server_key = None, base_url = [],
                      prc_global_cache = 0\<rparr> (Some key_A) False 0 module_heap of
      Inl e \<Rightarrow> False
    | Inr (s, h1) \<Rightarrow>
        server_oid s = 0 \<and> server_id s = replicate 40 98 \<and>
        get_server \<lparr>global_key = None, default_server_key = None, base_url = [],
                    prc_global_cache = 0\<rparr> (Some key_A) False 0 h1 = Inr (s, h1) \<and>
        (case get_server \<lparr>global_key = None, default_server_key = None, base_url = [],
                    prc_global_cache = 0\<rparr> (Some key_A) True 0 h1 of
           Inl e \<Rightarrow> False
         | Inr (s2, h2) \<Rightarrow>
             server_oid s2 = 1 \<and>
             cache_get 0 (replicate 40 98) (servers (global_caches h2 0)) = Some s2))"
proof -
  let ?P = "\<lparr>global_key = None, default_server_key = None, base_url = [],
             prc_global_cache = 0\<rparr>"
  let ?sid = "replicate 40 (98::nat)"
  have empty: "cache_get 0 ?sid (servers (global_caches module_heap (prc_global_cache ?P))) = None"
    by (simp add: module_heap_def default_GlobalCache_def GlobalCache_def Cache_def
        cache_get_def)
  have oid0: "next_oid module_heap = 0"
    by (simp add: module_heap_def)
  note r0 = get_server_resolution[OF key_A_ok(1), where self = ?P and h = module_heap
      and now = 0 and ignore = False, unfolded Let_def key_A_ok(2)]
  from r0 obtain s h1 where
    g1: "get_server ?P (Some key_A) False 0 module_heap = Inr (s, h1)"
    and s: "server_oid s = next_oid module_heap" "server_id s = ?sid"
      "ignore_global_key s = False"
    and h1: "h1 = module_heap\<lparr>next_oid := Suc (next_oid module_heap),
        global_caches := (global_caches module_heap)
          (prc_global_cache ?P := (global_caches module_heap (prc_global_cache ?P))
             \<lparr>servers := snd (cache_set 0 ?sid s
                 (servers (global_caches module_heap (prc_global_cache ?P))))\<rparr>)\<rparr>"
    and c1: "cache_get 0 ?sid (servers (global_caches h1 (prc_global_cache ?P))) = Some s"
    using empty by auto
  note r1 = get_server_resolution[OF key_A_ok(1), where self = ?P and h = h1
      and now = 0 and ignore = False, unfolded Let_def key_A_ok(2)]
  from r1 c1 s(3) have g2: "get_server ?P (Some key_A) False 0 h1 = Inr (s, h1)"
    by auto
  note r2 = get_server_resolution[OF key_A_ok(1), where self = ?P and h = h1
      and now = 0 and ignore = True, unfolded Let_def key_A_ok(2)]
  have "\<exists>x. cache_get 0 ?sid (servers (global_caches h1 (prc_global_cache ?P))) = Some x \<and>
      ignore_global_key x \<noteq> True"
    using c1 s(3) by simp
  with r2 obtain s2 h2 where
    g3: "get_server ?P (Some key_A) True 0 h1 = Inr (s2, h2)"
    and s2: "server_oid s2 = next_oid h1"
    and c2: "cache_get 0 ?sid (servers (global_caches h2 (prc_global_cache ?P))) = Some s2"
    by auto
  have "next_oid h1 = 1"
    by (simp add: h1 oid0)
  with g1 g2 g3 s s2 c2 oid0 show ?thesis
    by simp
qed

lemma get_server_frame:
  assumes "get_server self server_key ignore now h = Inr (srv, h')"
  shows "(\<forall>b. b \<noteq> prc_global_cache self \<longrightarrow> global_caches h' b = global_caches h b) \<and>
         server_caches h' = server_caches h"
  using assms
  by (auto simp: get_server_eq set_new_server_eq Server_init_def Let_def
      split: option.splits if_splits sum.splits)

lemma JoinEntry_at_frame:
  "b \<noteq> server_cache_at srv \<Longrightarrow>
     server_caches (snd (JoinEntry_at localtime srv data h)) b = server_caches h b"
  by (simp add: JoinEntry_at_def split: prod.splits)

text \<open>
  C8. Two clients constructed without a \<^verbatim>\<open>cache\<close> argument refer to the one
  \<^verbatim>\<open>GlobalCache\<close> that the default argument created, and two servers obtained through
  \<^verbatim>\<open>get_server\<close> refer to the one default \<^verbatim>\<open>ServerCache\<close>: a server stored through the
  first client is found through the second, and a join entry constructed for the first
  server is in the join log of the second.
\<close>

theorem default_caches_are_shared:
  "(case (PRC_init (Some [103]) None [] None, PRC_init None None [] None) of
      (Inr p1, Inr p2) \<Rightarrow>
        p1 \<noteq> p2 \<and>
        (case get_server p1 (Some key_A) False 0 module_heap of
           Inl e \<Rightarrow> False
         | Inr (sA, h1) \<Rightarrow>
             cache_get 0 (server_id sA)
               (servers (global_caches module_heap (prc_global_cache p2))) = None \<and>
             cache_get 0 (server_id sA)
               (servers (global_caches h1 (prc_global_cache p2))) = Some sA \<and>
             (case get_server p1 (Some key_B) False 0 h1 of
                Inl e \<Rightarrow> False
              | Inr (sB, h2) \<Rightarrow>
                  server_oid sA \<noteq> server_oid sB \<and> server_id sA \<noteq> server_id sB \<and>
                  k_items (join_logs (server_caches h2 (server_cache_at sB))) = [] \<and>
                  map (\<lambda>e. (created_at e, player_id (player e)))
                    (k_items (join_logs (server_caches
                       (snd (JoinEntry_at linux_utc sA
                          \<lparr>jd_Player = \<lparr>player_name = ''a'', player_id = 11\<rparr>,
                           jd_Join = Some True, jd_Timestamp = Some 100\<rparr> h2))
                       (server_cache_at sB))))
                    = [(100, 11)]))
    | _ \<Rightarrow> False)"
proof -
  let ?p1 = "\<lparr>global_key = Some [103], default_server_key = None, base_url = [],
              prc_global_cache = default_GlobalCache_at\<rparr>"
  let ?p2 = "\<lparr>global_key = None, default_server_key = None, base_url = [],
              prc_global_cache = default_GlobalCache_at\<rparr>"
  let ?idA = "replicate 40 (98::nat)"
  let ?idB = "replicate 40 (99::nat)"
  let ?D = "\<lparr>jd_Player = \<lparr>player_name = ''a'', player_id = 11\<rparr>,
             jd_Join = Some True, jd_Timestamp = Some 100\<rparr>"
  have p: "PRC_init (Some [103]) None [] None = Inr ?p1" "PRC_init None None [] None = Inr ?p2"
    by (simp_all add: PRC_init_def)
  have ne: "?p1 \<noteq> ?p2" by simp
  have ids: "?idA \<noteq> ?idB"
  proof
    assume "?idA = ?idB"
    then have "set ?idA = set ?idB" by simp
    then show False by simp
  qed
  have empty0: "cache_get 0 k (servers (global_caches module_heap a)) = None" for k a
    by (simp add: module_heap_def default_GlobalCache_def GlobalCache_def Cache_def
        cache_get_def)
  obtain sA hA where iA: "set_new_server ?p1 key_A False ?idA 0 module_heap = Inr (sA, hA)"
    and sA: "server_oid sA = next_oid module_heap" "server_id sA = ?idA"
      "ignore_global_key sA = False"
    and iAi: "Server_init ?p1 key_A 5 None False module_heap =
        Inr (sA, module_heap\<lparr>next_oid := Suc (next_oid module_heap)\<rparr>)"
    and hA: "hA = module_heap\<lparr>next_oid := Suc (next_oid module_heap),
        global_caches := (global_caches module_heap)
          (prc_global_cache ?p1 := (global_caches module_heap (prc_global_cache ?p1))
             \<lparr>servers := snd (cache_set 0 ?idA sA
                 (servers (global_caches module_heap (prc_global_cache ?p1))))\<rparr>)\<rparr>"
    using set_new_server_ok[OF key_A_ok(1,2), of ?p1 False 0 module_heap] by blast
  have gA: "get_server ?p1 (Some key_A) False 0 module_heap = Inr (sA, hA)"
    using iA by (simp add: get_server_valid[OF key_A_ok(1,2)] empty0)
  have cA: "cache_get 0 ?idA (servers (global_caches hA (prc_global_cache ?p2))) = Some sA"
    by (simp add: hA cache_get_after_set)
  have cAB: "cache_get 0 ?idB (servers (global_caches hA (prc_global_cache ?p1))) = None"
  proof -
    have "entries (servers (global_caches hA (prc_global_cache ?p1))) =
        [\<lparr>entry_key = ?idA, entry_value = sA, inserted_at = 0\<rparr>]"
      by (simp add: hA module_heap_def default_GlobalCache_def GlobalCache_def Cache_def
          cache_set_def)
    then show ?thesis
      using ids by (intro cache_get_absent) auto
  qed
  obtain sB hB where iB: "set_new_server ?p1 key_B False ?idB 0 hA = Inr (sB, hB)"
    and sB: "server_oid sB = next_oid hA" "server_id sB = ?idB"
    and iBi: "Server_init ?p1 key_B 5 None False hA =
        Inr (sB, hA\<lparr>next_oid := Suc (next_oid hA)\<rparr>)"
    using set_new_server_ok[OF key_B_ok(1,2), of ?p1 False 0 hA] by blast
  have gB: "get_server ?p1 (Some key_B) False 0 hA = Inr (sB, hB)"
    using cAB iB by (simp add: get_server_valid[OF key_B_ok(1,2)])
  have refs: "server_cache_at sA = default_ServerCache_at"
    "server_cache_at sB = default_ServerCache_at"
    using iAi iBi by (auto simp: Server_init_def key_A_ok key_B_ok)
  have oid: "server_oid sA \<noteq> server_oid sB"
    by (simp add: sA sB hA)
  have scB: "server_caches hB = server_caches module_heap"
    using get_server_frame[OF gA] get_server_frame[OF gB] by simp
  have j0: "k_items (join_logs (server_caches hB (server_cache_at sB))) = []"
    by (simp add: scB module_heap_def default_ServerCache_def ServerCache_def KeylessCache_def)
  have j1: "map (\<lambda>e. (created_at e, player_id (player e)))
      (k_items (join_logs (server_caches (snd (JoinEntry_at linux_utc sA ?D hB))
         (server_cache_at sB))))
      = [(100, 11)]"
  proof -
    have "server_caches (snd (JoinEntry_at linux_utc sA ?D hB)) (server_cache_at sB) =
        snd (JoinEntry linux_utc (server_caches hB default_ServerCache_at) ?D)"
      by (simp add: JoinEntry_at_def refs split: prod.splits)
    also have "server_caches hB default_ServerCache_at = default_ServerCache"
      by (simp add: scB module_heap_def)
    finally have e: "server_caches (snd (JoinEntry_at linux_utc sA ?D hB))
          (server_cache_at sB) = snd (JoinEntry linux_utc default_ServerCache ?D)" .
    have k0: "k_items (join_logs default_ServerCache) = []"
      "k_max_size (join_logs default_ServerCache) = 150"
      by (simp_all add: default_ServerCache_def ServerCache_def KeylessCache_def)
    have conv: "fromtimestamp linux_utc (get_default (jd_Timestamp ?D) 0) = Inr 100"
      by (simp add: linux_utc_examples)
    have "k_items (join_logs (snd (JoinEntry linux_utc default_ServerCache ?D))) =
        [\<lparr>created_at = 100, player = jd_Player ?D,
          is_join = get_default (jd_Join ?D) False\<rparr>]"
      by (subst JoinEntry_snd[OF conv]) (simp add: keyless_add_def k0)
    then show ?thesis
      by (simp add: e)
  qed
  show ?thesis
    using ne gA gB cA oid ids j0 j1
    by (simp add: p empty0 sA sB)
qed

end
